theory Spec2Isabelle
  imports Complex_Main "HOL-Library.AList" "HOL-Library.Multiset" "HOL-Library.Product_Lexorder"
begin

section \<open>Data model\<close>

text \<open>
  The play-by-play frame \<^verbatim>\<open>pbp_df\<close> is a list of rows. A row carries the columns that
  \<^verbatim>\<open>utils.py\<close> reads: \<^verbatim>\<open>game_id\<close>, \<^verbatim>\<open>eventnum\<close>, \<^verbatim>\<open>period\<close>, \<^verbatim>\<open>pctimestring\<close>,
  \<^verbatim>\<open>eventmsgtype\<close>, the three participant ids and \<^verbatim>\<open>player1_team_id\<close>. Participant and team
  cells may be null (\<open>None\<close>). The column \<^verbatim>\<open>game_time_remaining\<close> is attached by
  \<^verbatim>\<open>process_pbp_data\<close> (line 62), so it lives in the record extension \<open>timed_event\<close>.

  Python floats are idealised as rationals: the arithmetic of the source (sums and differences
  of clock values) is exact on whole seconds, and the model keeps it exact on fractional
  seconds too.
\<close>

record event =
  game_id :: int
  eventnum :: int
  period :: int
  pctimestring :: string
  eventmsgtype :: int
  player1_id :: "int option"
  player1_team_id :: "int option"
  player2_id :: "int option"
  player3_id :: "int option"

record timed_event = event +
  game_time_remaining :: rat

text \<open>
  Every way the source can raise: \<^verbatim>\<open>pc_split[1]\<close> on a clock without a colon
  (\<open>IndexError\<close>); \<^verbatim>\<open>int()\<close>/\<^verbatim>\<open>float()\<close> on text that is no number, and
  \<^verbatim>\<open>pd.DataFrame\<close> on columns of unequal length (\<open>ValueError\<close>); a dictionary or
  column lookup on a missing key (\<open>KeyError\<close>); \<^verbatim>\<open>None - number\<close> (\<open>TypeError\<close>); the
  \<^verbatim>\<open>assert\<close> of line 181, whose message interpolates \<^verbatim>\<open>team_id\<close> and the loop variable
  \<^verbatim>\<open>index\<close> (\<open>AssertionError team_id index\<close>).
\<close>

datatype error =
  IndexError
| ValueError
| KeyError
| TypeError
| AssertionError int nat

section \<open>Clock normalizer\<close>

text \<open>\<^verbatim>\<open>str.split(":")\<close>: every colon separates; the result is never empty.\<close>

fun split_colon :: "string \<Rightarrow> string list" where
  "split_colon [] = [[]]"
| "split_colon (c # cs) =
     (if c = CHR '':'' then [] # split_colon cs
      else (case split_colon cs of
              [] \<Rightarrow> [[c]]
            | w # ws \<Rightarrow> (c # w) # ws))"

definition digit_val :: "char \<Rightarrow> nat option" where
  "digit_val c = map_of (zip ''0123456789'' [0, 1, 2, 3, 4, 5, 6, 7, 8, 9]) c"

text \<open>Value of a run of decimal digits, most significant first; \<open>None\<close> on any other character.\<close>

fun digits_val :: "nat \<Rightarrow> string \<Rightarrow> nat option" where
  "digits_val acc [] = Some acc"
| "digits_val acc (c # cs) =
     (case digit_val c of
        None \<Rightarrow> None
      | Some d \<Rightarrow> digits_val (10 * acc + d) cs)"

text \<open>
  \<^verbatim>\<open>int(s)\<close> on the literals the model covers: an optional sign and one or more ASCII
  decimal digits. Python also accepts surrounding blanks, underscores between digits and
  non-ASCII digits; the model answers \<open>ValueError\<close> there, and no theorem below rests
  on that answer.
\<close>

definition py_int_digits :: "string \<Rightarrow> error + int" where
  "py_int_digits s =
     (if s = [] then Inl ValueError
      else (case digits_val 0 s of
              None \<Rightarrow> Inl ValueError
            | Some n \<Rightarrow> Inr (int n)))"

fun py_int :: "string \<Rightarrow> error + int" where
  "py_int [] = Inl ValueError"
| "py_int (c # cs) =
     (if c = CHR ''-'' then
        (case py_int_digits cs of Inl e \<Rightarrow> Inl e | Inr n \<Rightarrow> Inr (- n))
      else if c = CHR ''+'' then py_int_digits cs
      else py_int_digits (c # cs))"

text \<open>
  \<^verbatim>\<open>float(s)\<close> on the literals the model covers: an optional sign, digits, and an optional
  point followed by digits, with at least one digit in all (\<^verbatim>\<open>"30"\<close>, \<^verbatim>\<open>"07.5"\<close>,
  \<^verbatim>\<open>"5."\<close>, \<^verbatim>\<open>".5"\<close>). Exponents, \<^verbatim>\<open>inf\<close>, \<^verbatim>\<open>nan\<close>, blanks and underscores are
  answered with \<open>ValueError\<close>; no theorem below rests on that answer.
\<close>

definition py_float_unsigned :: "string \<Rightarrow> error + rat" where
  "py_float_unsigned s =
     (let ip = takeWhile (\<lambda>c. c \<noteq> CHR ''.'') s;
          rest = dropWhile (\<lambda>c. c \<noteq> CHR ''.'') s;
          fp = (case rest of [] \<Rightarrow> [] | _ # r \<Rightarrow> r)
      in if ip = [] \<and> fp = [] then Inl ValueError
         else (case (digits_val 0 ip, digits_val 0 fp) of
                 (Some i, Some f) \<Rightarrow> Inr (of_nat i + of_nat f / 10 ^ length fp)
               | _ \<Rightarrow> Inl ValueError))"

fun py_float :: "string \<Rightarrow> error + rat" where
  "py_float [] = Inl ValueError"
| "py_float (c # cs) =
     (if c = CHR ''-'' then
        (case py_float_unsigned cs of Inl e \<Rightarrow> Inl e | Inr x \<Rightarrow> Inr (- x))
      else if c = CHR ''+'' then py_float_unsigned cs
      else py_float_unsigned (c # cs))"

text \<open>
  \<^verbatim>\<open>play_clock_to_seconds\<close> (lines 10-37), in the order of the source: the split
  (line 23), \<^verbatim>\<open>int(pc_split[0])\<close> (line 26), then \<^verbatim>\<open>pc_split[1]\<close>, which raises
  \<open>IndexError\<close> on a clock without a colon, and \<^verbatim>\<open>float\<close> of it (line 27). The pair
  returned is \<open>(game_time_remaining, max_period_time)\<close>.
\<close>

definition play_clock_to_seconds :: "string \<Rightarrow> int \<Rightarrow> error + (rat \<times> rat)" where
  "play_clock_to_seconds play_clock per =
     (case split_colon play_clock of
        [] \<Rightarrow> Inl IndexError
      | m # rest \<Rightarrow>
          (case py_int m of
             Inl e \<Rightarrow> Inl e
           | Inr minutes \<Rightarrow>
               (case rest of
                  [] \<Rightarrow> Inl IndexError
                | s # _ \<Rightarrow>
                    (case py_float s of
                       Inl e \<Rightarrow> Inl e
                     | Inr seconds \<Rightarrow>
                         (let period_time = (if per \<le> 4 then 10 * (4 - per) * 60 else 0);
                              max_period_time =
                                (if per \<le> 4 then 10 * (5 - per) * 60 else 5 * 60)
                          in Inr (of_int period_time + (of_int minutes * 60 + seconds),
                                  of_int max_period_time))))))"

section \<open>Event sequencer\<close>

text \<open>
  Line 62: the list comprehension calls the normalizer on every row in frame order and keeps
  the first component; the first row whose clock does not parse raises.
\<close>

fun add_game_time_remaining :: "event list \<Rightarrow> error + timed_event list" where
  "add_game_time_remaining [] = Inr []"
| "add_game_time_remaining (e # es) =
     (case play_clock_to_seconds (pctimestring e) (period e) of
        Inl err \<Rightarrow> Inl err
      | Inr (t, _) \<Rightarrow>
          (case add_game_time_remaining es of
             Inl err \<Rightarrow> Inl err
           | Inr ts \<Rightarrow>
               Inr (\<lparr>game_id = game_id e, eventnum = eventnum e, period = period e,
                     pctimestring = pctimestring e, eventmsgtype = eventmsgtype e,
                     player1_id = player1_id e, player1_team_id = player1_team_id e,
                     player2_id = player2_id e, player3_id = player3_id e,
                     game_time_remaining = t\<rparr> # ts)))"

text \<open>
  Line 63: \<^verbatim>\<open>sort_values(by=["game_time_remaining", "period", "eventnum"],
  ascending=[False, True, True])\<close>. A sort on several columns is pandas' lexicographic sort,
  which keeps rows with equal keys in frame order; descending order on the first column is
  ascending order on its negation. \<open>sort_key\<close> is the stable insertion sort of the list
  library, and triples are compared lexicographically.
\<close>

definition sort_columns :: "'a timed_event_scheme \<Rightarrow> rat \<times> int \<times> int" where
  "sort_columns e = (- game_time_remaining e, period e, eventnum e)"

definition sort_values :: "'a timed_event_scheme list \<Rightarrow> 'a timed_event_scheme list" where
  "sort_values pbp_df = sort_key sort_columns pbp_df"

text \<open>
  The ordering in the words of the specification: \<open>a\<close> is processed no later than \<open>b\<close>
  when \<open>a\<close> has more time remaining, or the same time and a smaller period, or the same
  time and period and an event number that is not larger.
\<close>

definition precedes :: "'a timed_event_scheme \<Rightarrow> 'a timed_event_scheme \<Rightarrow> bool" where
  "precedes a b \<longleftrightarrow>
     game_time_remaining a > game_time_remaining b
     \<or> (game_time_remaining a = game_time_remaining b
        \<and> (period a < period b \<or> (period a = period b \<and> eventnum a \<le> eventnum b)))"

section \<open>Lineup and time-bank state machine\<close>

text \<open>
  One entry of the dictionary \<^verbatim>\<open>time_on_court\<close> (line 68). The dictionary itself is an
  association list in insertion order, which is the order line 126 iterates in;
  \<open>AList.update\<close> overwrites a present key in place, as assignment to a dictionary key does.
\<close>

record bank =
  playing_time :: rat
  time_in :: "rat option"
  time_in_list :: "rat list"
  time_out_list :: "rat list"
  period_list :: "int list"

text \<open>The loop's variables; \<open>cur_period\<close> is the local variable \<^verbatim>\<open>period\<close> of line 59.\<close>

record state =
  home_on_court :: "int list"
  visitor_on_court :: "int list"
  cur_period :: int
  time_on_court :: "(int \<times> bank) list"

definition empty_bank :: bank where
  "empty_bank = \<lparr>playing_time = 0, time_in = None, time_in_list = [], time_out_list = [],
                  period_list = []\<rparr>"

definition init_time_on_court :: "int list \<Rightarrow> (int \<times> bank) list" where
  "init_time_on_court roster = fold (\<lambda>player. AList.update player empty_bank) roster []"

definition init_state :: "int list \<Rightarrow> int list \<Rightarrow> state" where
  "init_state home_roster visitor_roster =
     \<lparr>home_on_court = [], visitor_on_court = [], cur_period = 1,
      time_on_court = init_time_on_court (home_roster @ visitor_roster)\<rparr>"

text \<open>Lines 88-96: the outgoing player's entry.\<close>

definition check_out :: "rat \<Rightarrow> rat \<Rightarrow> int \<Rightarrow> bank \<Rightarrow> bank" where
  "check_out t max_period_time per b =
     (case time_in b of
        None \<Rightarrow>
          b\<lparr>playing_time := playing_time b + (max_period_time - t),
            time_in := None,
            time_in_list := time_in_list b @ [max_period_time],
            time_out_list := time_out_list b @ [t],
            period_list := period_list b @ [per]\<rparr>
      | Some s \<Rightarrow>
          b\<lparr>playing_time := playing_time b + (s - t),
            time_in := None,
            time_out_list := time_out_list b @ [t],
            period_list := period_list b @ [per]\<rparr>)"

text \<open>Lines 99-100 with \<open>t\<close> the event time; lines 118-119 and 122-123 with \<open>t\<close> the period start.\<close>

definition check_in :: "rat \<Rightarrow> bank \<Rightarrow> bank" where
  "check_in t b = b\<lparr>time_in := Some t, time_in_list := time_in_list b @ [t]\<rparr>"

text \<open>Lines 104-107: \<^verbatim>\<open>time_in - game_time_remaining\<close> raises when the slot holds \<^verbatim>\<open>None\<close>.\<close>

definition period_close :: "rat \<Rightarrow> int \<Rightarrow> bank \<Rightarrow> error + bank" where
  "period_close t per b =
     (case time_in b of
        None \<Rightarrow> Inl TypeError
      | Some s \<Rightarrow>
          Inr (b\<lparr>playing_time := playing_time b + (s - t),
                 time_in := None,
                 time_out_list := time_out_list b @ [t],
                 period_list := period_list b @ [per]\<rparr>))"

definition remove_if_present :: "int \<Rightarrow> int list \<Rightarrow> int list" where
  "remove_if_present p on_court = (if p \<in> set on_court then remove1 p on_court else on_court)"

definition append_if_absent :: "int \<Rightarrow> int list \<Rightarrow> int list" where
  "append_if_absent p on_court = (if p \<notin> set on_court then on_court @ [p] else on_court)"

text \<open>
  Lines 73-100, with \<open>t\<close> and \<open>max_period_time\<close> the two values computed on line 72. A null
  participant, or one that is no key of the dictionary, raises \<open>KeyError\<close> on line 88
  (outgoing) or line 99 (incoming); the list updates of lines 74-85 made before the raise
  are lost with the exception, so the model builds the lists last.
\<close>

definition substitution :: "int \<Rightarrow> state \<Rightarrow> 'a event_scheme \<Rightarrow> rat \<Rightarrow> rat \<Rightarrow> error + state" where
  "substitution home_id st row t max_period_time =
     (case player1_id row of
        None \<Rightarrow> Inl KeyError
      | Some p1 \<Rightarrow>
          (case map_of (time_on_court st) p1 of
             None \<Rightarrow> Inl KeyError
           | Some b1 \<Rightarrow>
               (let toc1 = AList.update p1 (check_out t max_period_time (cur_period st) b1)
                             (time_on_court st)
                in case player2_id row of
                     None \<Rightarrow> Inl KeyError
                   | Some p2 \<Rightarrow>
                       (case map_of toc1 p2 of
                          None \<Rightarrow> Inl KeyError
                        | Some b2 \<Rightarrow>
                            (let toc2 = AList.update p2 (check_in t b2) toc1
                             in if player1_team_id row = Some home_id
                                then Inr (st\<lparr>home_on_court :=
                                               append_if_absent p2
                                                 (remove_if_present p1 (home_on_court st)),
                                             time_on_court := toc2\<rparr>)
                                else Inr (st\<lparr>visitor_on_court :=
                                               append_if_absent p2
                                                 (remove_if_present p1 (visitor_on_court st)),
                                             time_on_court := toc2\<rparr>))))))"

text \<open>Lines 103-107: the loop over \<^verbatim>\<open>home_on_court + visitor_on_court\<close>.\<close>

fun close_all :: "rat \<Rightarrow> int \<Rightarrow> int list \<Rightarrow> (int \<times> bank) list \<Rightarrow> error + (int \<times> bank) list" where
  "close_all t per [] toc = Inr toc"
| "close_all t per (p # ps) toc =
     (case map_of toc p of
        None \<Rightarrow> Inl KeyError
      | Some b \<Rightarrow>
          (case period_close t per b of
             Inl e \<Rightarrow> Inl e
           | Inr b' \<Rightarrow> close_all t per ps (AList.update p b' toc)))"

text \<open>Lines 101-111.\<close>

definition period_end :: "state \<Rightarrow> rat \<Rightarrow> error + state" where
  "period_end st t =
     (case close_all t (cur_period st) (home_on_court st @ visitor_on_court st)
             (time_on_court st) of
        Inl e \<Rightarrow> Inl e
      | Inr toc \<Rightarrow>
          Inr \<lparr>home_on_court = [], visitor_on_court = [], cur_period = cur_period st + 1,
               time_on_court = toc\<rparr>)"

text \<open>Lines 114-123: one participant of a play.\<close>

definition discover :: "int list \<Rightarrow> int list \<Rightarrow> rat \<Rightarrow> state \<Rightarrow> int option \<Rightarrow> error + state" where
  "discover home_roster visitor_roster max_period_time st pid =
     (case pid of
        None \<Rightarrow> Inr st
      | Some p \<Rightarrow>
          if p \<in> set home_roster \<and> p \<notin> set (home_on_court st) then
            (case map_of (time_on_court st) p of
               None \<Rightarrow> Inl KeyError
             | Some b \<Rightarrow>
                 Inr (st\<lparr>home_on_court := home_on_court st @ [p],
                        time_on_court :=
                          AList.update p (check_in max_period_time b) (time_on_court st)\<rparr>))
          else if p \<in> set visitor_roster \<and> p \<notin> set (visitor_on_court st) then
            (case map_of (time_on_court st) p of
               None \<Rightarrow> Inl KeyError
             | Some b \<Rightarrow>
                 Inr (st\<lparr>visitor_on_court := visitor_on_court st @ [p],
                        time_on_court :=
                          AList.update p (check_in max_period_time b) (time_on_court st)\<rparr>))
          else Inr st)"

fun discover_all :: "int list \<Rightarrow> int list \<Rightarrow> rat \<Rightarrow> state \<Rightarrow> int option list \<Rightarrow> error + state" where
  "discover_all home_roster visitor_roster max_period_time st [] = Inr st"
| "discover_all home_roster visitor_roster max_period_time st (pid # pids) =
     (case discover home_roster visitor_roster max_period_time st pid of
        Inl e \<Rightarrow> Inl e
      | Inr st' \<Rightarrow> discover_all home_roster visitor_roster max_period_time st' pids)"

text \<open>Lines 112-113.\<close>

definition generic_play :: "int list \<Rightarrow> int list \<Rightarrow> state \<Rightarrow> 'a event_scheme \<Rightarrow> rat \<Rightarrow> error + state" where
  "generic_play home_roster visitor_roster st row max_period_time =
     discover_all home_roster visitor_roster max_period_time st
       [player1_id row, player2_id row, player3_id row]"

text \<open>The body of the loop of line 70.\<close>

definition step :: "int list \<Rightarrow> int list \<Rightarrow> int \<Rightarrow> state \<Rightarrow> 'a event_scheme \<Rightarrow> error + state" where
  "step home_roster visitor_roster home_id st row =
     (case play_clock_to_seconds (pctimestring row) (period row) of
        Inl e \<Rightarrow> Inl e
      | Inr (t, max_period_time) \<Rightarrow>
          if eventmsgtype row = 8 then substitution home_id st row t max_period_time
          else if eventmsgtype row = 13 then period_end st t
          else if eventmsgtype row \<le> 5 then
            generic_play home_roster visitor_roster st row max_period_time
          else Inr st)"

fun run_events :: "int list \<Rightarrow> int list \<Rightarrow> int \<Rightarrow> state \<Rightarrow> 'a event_scheme list \<Rightarrow> error + state" where
  "run_events home_roster visitor_roster home_id st [] = Inr st"
| "run_events home_roster visitor_roster home_id st (row # rows) =
     (case step home_roster visitor_roster home_id st row of
        Inl e \<Rightarrow> Inl e
      | Inr st' \<Rightarrow> run_events home_roster visitor_roster home_id st' rows)"

subsection \<open>The interval table\<close>

record sub_row =
  player_id :: int
  team_id :: int
  sub_time_in :: rat
  sub_time_out :: rat

text \<open>
  \<^verbatim>\<open>sub_df\<close> starts as \<^verbatim>\<open>pd.DataFrame()\<close>, a frame without columns, and gets its four
  columns with the first \<^verbatim>\<open>pd.concat\<close>.
\<close>

datatype sub_frame = NoColumns | Frame "sub_row list"

fun concat_frame :: "sub_frame \<Rightarrow> sub_row list \<Rightarrow> sub_frame" where
  "concat_frame NoColumns rows = Frame rows"
| "concat_frame (Frame old) rows = Frame (old @ rows)"

text \<open>
  Lines 127-138. The four columns have lengths \<^verbatim>\<open>len(time_in_list)\<close> (three of them) and
  \<^verbatim>\<open>len(time_out_list)\<close>; \<^verbatim>\<open>pd.DataFrame\<close> raises \<open>ValueError\<close> when they differ.
\<close>

definition player_frame :: "int list \<Rightarrow> int \<Rightarrow> int \<Rightarrow> int \<Rightarrow> bank \<Rightarrow> error + sub_row list" where
  "player_frame home_roster home_id visitor_id player b =
     (if length (time_in_list b) \<noteq> length (time_out_list b) then Inl ValueError
      else Inr (map (\<lambda>(i, out). \<lparr>player_id = player,
                                  team_id = (if player \<in> set home_roster then home_id
                                             else visitor_id),
                                  sub_time_in = i, sub_time_out = out\<rparr>)
                  (zip (time_in_list b) (time_out_list b))))"

fun build_sub_df :: "int list \<Rightarrow> int \<Rightarrow> int \<Rightarrow> (int \<times> bank) list \<Rightarrow> sub_frame \<Rightarrow> error + sub_frame" where
  "build_sub_df home_roster home_id visitor_id [] sub_df = Inr sub_df"
| "build_sub_df home_roster home_id visitor_id ((player, b) # rest) sub_df =
     (case player_frame home_roster home_id visitor_id player b of
        Inl e \<Rightarrow> Inl e
      | Inr temp_df \<Rightarrow>
          build_sub_df home_roster home_id visitor_id rest (concat_frame sub_df temp_df))"

text \<open>\<^verbatim>\<open>process_pbp_data\<close> (lines 40-141).\<close>

definition process_pbp_data ::
  "event list \<Rightarrow> int list \<Rightarrow> int list \<Rightarrow> int \<Rightarrow> int \<Rightarrow> error + (sub_frame \<times> timed_event list)" where
  "process_pbp_data pbp_df home_roster visitor_roster home_id visitor_id =
     (case add_game_time_remaining pbp_df of
        Inl e \<Rightarrow> Inl e
      | Inr timed \<Rightarrow>
          (case run_events home_roster visitor_roster home_id
                  (init_state home_roster visitor_roster) (sort_values timed) of
             Inl e \<Rightarrow> Inl e
           | Inr st \<Rightarrow>
               (case build_sub_df home_roster home_id visitor_id (time_on_court st) NoColumns of
                  Inl e \<Rightarrow> Inl e
                | Inr sub_df \<Rightarrow> Inr (sub_df, sort_values timed))))"

section \<open>Lineup assignment engine\<close>

text \<open>
  Boolean indexing \<^verbatim>\<open>df[mask]\<close>: the rows whose mask entry is true, in frame order. A
  comparison of a column with a scalar is the list of the row-wise comparisons, and
  \<^verbatim>\<open>&\<close> is the row-wise conjunction.
\<close>

definition boolean_index :: "'a list \<Rightarrow> bool list \<Rightarrow> 'a list" where
  "boolean_index df flags = map fst (filter snd (zip df flags))"

definition mask_and :: "bool list \<Rightarrow> bool list \<Rightarrow> bool list" where
  "mask_and m1 m2 = map (\<lambda>(a, b). a \<and> b) (zip m1 m2)"

text \<open>Lines 162-179, for one row and the intervals of one team.\<close>

definition on_court_players :: "sub_row list \<Rightarrow> 'a timed_event_scheme \<Rightarrow> int list" where
  "on_court_players team_sub_df row =
     (let t = game_time_remaining row in
      if eventmsgtype row = 13 then
        map player_id
          (boolean_index team_sub_df (map (\<lambda>r. sub_time_out r = t) team_sub_df))
      else if eventmsgtype row = 8 then
        map player_id
          (boolean_index team_sub_df
             (mask_and (map (\<lambda>r. sub_time_in r \<ge> t) team_sub_df)
                       (map (\<lambda>r. sub_time_out r < t) team_sub_df)))
      else
        (let closed = map player_id
               (boolean_index team_sub_df
                  (mask_and (map (\<lambda>r. sub_time_in r \<ge> t) team_sub_df)
                            (map (\<lambda>r. sub_time_out r \<le> t) team_sub_df)))
         in if length closed > 5 then
              map player_id
                (boolean_index team_sub_df
                   (mask_and (map (\<lambda>r. sub_time_in r > t) team_sub_df)
                             (map (\<lambda>r. sub_time_out r \<le> t) team_sub_df)))
            else closed))"

text \<open>
  The selection in the words of the specification: which intervals of a team match an event
  of a given category at query time \<open>t\<close>.
\<close>

definition matches_period_end :: "rat \<Rightarrow> sub_row \<Rightarrow> bool" where
  "matches_period_end t r \<longleftrightarrow> sub_time_out r = t"

definition matches_substitution :: "rat \<Rightarrow> sub_row \<Rightarrow> bool" where
  "matches_substitution t r \<longleftrightarrow> sub_time_in r \<ge> t \<and> sub_time_out r < t"

definition matches_closed :: "rat \<Rightarrow> sub_row \<Rightarrow> bool" where
  "matches_closed t r \<longleftrightarrow> sub_time_in r \<ge> t \<and> sub_time_out r \<le> t"

definition matches_strict :: "rat \<Rightarrow> sub_row \<Rightarrow> bool" where
  "matches_strict t r \<longleftrightarrow> sub_time_in r > t \<and> sub_time_out r \<le> t"

text \<open>One row of the lineup table: the key columns and the five player columns of each side.\<close>

record lineup_row =
  lineup_game_id :: int
  lineup_eventnum :: int
  home_players :: "int list"
  visitor_players :: "int list"

text \<open>Lines 186-190: the five columns read positions 0 to 4 of the list.\<close>

definition five_columns :: "int list \<Rightarrow> int list" where
  "five_columns on_court = map (\<lambda>i. on_court ! i) [0, 1, 2, 3, 4]"

text \<open>Line 160: the intervals of one team.\<close>

definition team_rows :: "sub_row list \<Rightarrow> int \<Rightarrow> sub_row list" where
  "team_rows sub_df team = boolean_index sub_df (map (\<lambda>r. team_id r = team) sub_df)"

text \<open>
  Lines 158-198 on a frame that has its columns. \<open>index\<close> is the loop variable of
  \<^verbatim>\<open>iterrows\<close>: the frame returned by \<^verbatim>\<open>process_pbp_data\<close> had its index reset on line 63,
  so the index of a row is its position. The home side is checked before the visitor side,
  and the merge on \<^verbatim>\<open>game_id\<close> and \<^verbatim>\<open>eventnum\<close> joins the two one-row frames of the same
  event into one row.
\<close>

fun assign_rows :: "sub_row list \<Rightarrow> int \<Rightarrow> int \<Rightarrow> nat \<Rightarrow> 'a timed_event_scheme list \<Rightarrow> error + lineup_row list" where
  "assign_rows sub_df home_id visitor_id index [] = Inr []"
| "assign_rows sub_df home_id visitor_id index (row # rows) =
     (let home = on_court_players (team_rows sub_df home_id) row in
      if length home \<noteq> 5 then Inl (AssertionError home_id index)
      else
        (let visitor = on_court_players (team_rows sub_df visitor_id) row in
         if length visitor \<noteq> 5 then Inl (AssertionError visitor_id index)
         else
           (case assign_rows sub_df home_id visitor_id (Suc index) rows of
              Inl e \<Rightarrow> Inl e
            | Inr player_df \<Rightarrow>
                Inr (\<lparr>lineup_game_id = game_id row, lineup_eventnum = eventnum row,
                      home_players = five_columns home,
                      visitor_players = five_columns visitor\<rparr> # player_df))))"

text \<open>
  \<^verbatim>\<open>assign_players_on_court\<close> (lines 143-200). On a frame without columns
  \<^verbatim>\<open>sub_df["team_id"]\<close> raises \<open>KeyError\<close> at the first row.
\<close>

definition assign_players_on_court ::
  "sub_frame \<Rightarrow> 'a timed_event_scheme list \<Rightarrow> int \<Rightarrow> int \<Rightarrow> error + lineup_row list" where
  "assign_players_on_court sub_df pbp_df home_id visitor_id =
     (case sub_df of
        NoColumns \<Rightarrow> (if pbp_df = [] then Inr [] else Inl KeyError)
      | Frame rows \<Rightarrow> assign_rows rows home_id visitor_id 0 pbp_df)"

text \<open>
  The selection in the words of the specification: the intervals of \<open>team\<close> that an
  event selects, by category, with the narrowing of the closed filter when it matches more
  than five.
\<close>

definition selection_spec :: "sub_row list \<Rightarrow> int \<Rightarrow> 'a timed_event_scheme \<Rightarrow> sub_row list" where
  "selection_spec sub_df team row =
     (let t = game_time_remaining row;
          of_team = (\<lambda>matches. filter (\<lambda>r. team_id r = team \<and> matches t r) sub_df)
      in if eventmsgtype row = 13 then of_team matches_period_end
         else if eventmsgtype row = 8 then of_team matches_substitution
         else if length (of_team matches_closed) > 5 then of_team matches_strict
         else of_team matches_closed)"

text \<open>The condition asserted on line 181, for both sides of one event.\<close>

definition five_per_side :: "sub_row list \<Rightarrow> int \<Rightarrow> int \<Rightarrow> 'a timed_event_scheme \<Rightarrow> bool" where
  "five_per_side sub_df home_id visitor_id row \<longleftrightarrow>
     length (on_court_players (team_rows sub_df home_id) row) = 5
     \<and> length (on_court_players (team_rows sub_df visitor_id) row) = 5"

text \<open>The row that lines 182-196 build for an event that passed the assertion on both sides.\<close>

definition lineup_of :: "sub_row list \<Rightarrow> int \<Rightarrow> int \<Rightarrow> 'a timed_event_scheme \<Rightarrow> lineup_row" where
  "lineup_of sub_df home_id visitor_id row =
     \<lparr>lineup_game_id = game_id row, lineup_eventnum = eventnum row,
      home_players = on_court_players (team_rows sub_df home_id) row,
      visitor_players = on_court_players (team_rows sub_df visitor_id) row\<rparr>"

section \<open>Example games\<close>

definition ev :: "int \<Rightarrow> int \<Rightarrow> string \<Rightarrow> int \<Rightarrow> int option \<Rightarrow> int option \<Rightarrow> int option \<Rightarrow> int option \<Rightarrow> event" where
  "ev n per clock category p1 team p2 p3 =
     \<lparr>game_id = 1, eventnum = n, period = per, pctimestring = clock, eventmsgtype = category,
      player1_id = p1, player1_team_id = team, player2_id = p2, player3_id = p3\<rparr>"

text \<open>
  Home team 100 with roster 1..6, visitor team 200 with roster 11..15. Three plays name
  eight starters; player 4 is checked out twice (at 3:20 and at 1:40) without a check-in
  in between; the period ends at 0:00.
\<close>

definition double_checkout_game :: "event list" where
  "double_checkout_game =
     [ev 1 1 ''9:00'' 1 (Some 1) (Some 100) (Some 2) (Some 3),
      ev 2 1 ''8:00'' 1 (Some 11) (Some 200) (Some 12) (Some 13),
      ev 3 1 ''7:00'' 1 (Some 14) (Some 200) (Some 15) None,
      ev 4 1 ''3:20'' 8 (Some 4) (Some 100) (Some 5) None,
      ev 5 1 ''1:40'' 8 (Some 4) (Some 100) (Some 6) None,
      ev 6 1 ''0:00'' 13 None None None None]"

text \<open>
  Home team 100 with the one-player roster 1 and an empty visitor roster; the only event is
  a start-of-period marker (category 12) with event number 7.
\<close>

definition lone_marker_game :: "event list" where
  "lone_marker_game = [ev 7 1 ''10:00'' 12 None None None None]"

section \<open>How one event changes a time-bank entry\<close>

text \<open>
  The four updates the loop body applies to an entry of \<^verbatim>\<open>time_on_court\<close> while it handles
  an event with time \<open>t\<close>, period start \<open>max_period_time\<close> and period counter \<open>per\<close>:
  check-out (lines 88-96), check-in at the event time (lines 99-100), check-in at the period
  start (lines 118-119, 122-123) and close at the period end (lines 104-107).
\<close>

inductive bank_step :: "rat \<Rightarrow> rat \<Rightarrow> int \<Rightarrow> bank \<Rightarrow> bank \<Rightarrow> bool"
  for t max_period_time per where
  checked_out: "bank_step t max_period_time per b (check_out t max_period_time per b)"
| checked_in: "bank_step t max_period_time per b (check_in t b)"
| discovered: "bank_step t max_period_time per b (check_in max_period_time b)"
| closed: "period_close t per b = Inr b' \<Longrightarrow> bank_step t max_period_time per b b'"

text \<open>Two dictionaries with the same keys whose entries are related by \<open>R\<close>.\<close>

definition banks_rel :: "(bank \<Rightarrow> bank \<Rightarrow> bool) \<Rightarrow> (int \<times> bank) list \<Rightarrow> (int \<times> bank) list \<Rightarrow> bool" where
  "banks_rel R toc toc' \<longleftrightarrow> (\<forall>p. rel_option R (map_of toc p) (map_of toc' p))"

text \<open>The number of period-end events in a list of rows.\<close>

definition period_ends :: "'a event_scheme list \<Rightarrow> int" where
  "period_ends rows = int (length (filter (\<lambda>r. eventmsgtype r = 13) rows))"

text \<open>
  Home team 100 with roster 1..5, visitor team 200 with roster 6..10. Four plays name the
  ten starters; the second play also names player 99, who is on neither roster. The period
  ends at 0:00.
\<close>

definition unknown_participant_game :: "event list" where
  "unknown_participant_game =
     [ev 1 1 ''9:00'' 1 (Some 1) (Some 100) (Some 2) (Some 3),
      ev 2 1 ''8:00'' 1 (Some 4) (Some 100) (Some 5) (Some 99),
      ev 3 1 ''7:00'' 1 (Some 6) (Some 200) (Some 7) (Some 8),
      ev 4 1 ''6:00'' 1 (Some 9) (Some 200) (Some 10) None,
      ev 5 1 ''0:00'' 13 None None None None]"

section \<open>Shape of a time-bank entry\<close>

text \<open>The rows of an interval table; a frame without columns has none.\<close>

fun frame_rows :: "sub_frame \<Rightarrow> sub_row list" where
  "frame_rows NoColumns = []"
| "frame_rows (Frame rows) = rows"

text \<open>
  The closed intervals of an entry, as lines 133-136 pair them: check-ins with check-outs,
  position by position.
\<close>

definition intervals :: "bank \<Rightarrow> (rat \<times> rat) list" where
  "intervals b = zip (time_in_list b) (time_out_list b)"

definition interval_total :: "bank \<Rightarrow> rat" where
  "interval_total b = sum_list (map (\<lambda>(i, out). i - out) (intervals b))"

text \<open>
  An entry is paired when its check-ins and check-outs match up: equally many while the
  stored check-in is null, and one more check-in, the stored one, while it is set.
\<close>

definition paired :: "bank \<Rightarrow> bool" where
  "paired b \<longleftrightarrow>
     (case time_in b of
        None \<Rightarrow> length (time_in_list b) = length (time_out_list b)
      | Some s \<Rightarrow> length (time_in_list b) = Suc (length (time_out_list b))
                  \<and> last (time_in_list b) = s)"

text \<open>
  An entry is overfull when it holds more check-ins than its check-outs and its stored
  check-in account for. No update of the loop repairs that, and line 131 then raises.
\<close>

definition overfull :: "bank \<Rightarrow> bool" where
  "overfull b \<longleftrightarrow>
     length (time_in_list b)
       > length (time_out_list b) + (case time_in b of None \<Rightarrow> 0 | Some s \<Rightarrow> 1)"

section \<open>Times of an event stream\<close>

text \<open>
  The two values line 72 computes for a row (zero when the clock does not parse; the loop
  never gets past such a row).
\<close>

definition clock_time :: "'a event_scheme \<Rightarrow> rat" where
  "clock_time row =
     (case play_clock_to_seconds (pctimestring row) (period row) of
        Inl e \<Rightarrow> 0
      | Inr (t, max_period_time) \<Rightarrow> t)"

definition period_start :: "'a event_scheme \<Rightarrow> rat" where
  "period_start row =
     (case play_clock_to_seconds (pctimestring row) (period row) of
        Inl e \<Rightarrow> 0
      | Inr (t, max_period_time) \<Rightarrow> max_period_time)"

text \<open>The period starts of the rows, to which implicit starters are backdated.\<close>

definition period_starts :: "'a event_scheme list \<Rightarrow> rat set" where
  "period_starts rows = period_start ` set rows"

text \<open>The period starts of the rows whose clock shows more than the period holds.\<close>

definition late_starts :: "'a event_scheme list \<Rightarrow> rat set" where
  "late_starts rows = period_start ` {row \<in> set rows. period_start row < clock_time row}"

text \<open>
  The ordering facts about an entry that the loop maintains, relative to the set \<open>past\<close> of
  event times consumed so far: check-outs are past event times in non-increasing order;
  an interval ends at or below its start unless it starts at a late period start; an
  interval starts at or below the end of every earlier one unless it starts at a period
  start; and a stored check-in obeys both bounds against what is already recorded.
\<close>

definition regular :: "rat set \<Rightarrow> rat set \<Rightarrow> rat set \<Rightarrow> bank \<Rightarrow> bool" where
  "regular past late starts b \<longleftrightarrow>
     paired b
     \<and> set (time_out_list b) \<subseteq> past
     \<and> sorted_wrt (\<lambda>x y. y \<le> x) (time_out_list b)
     \<and> (\<forall>(i, out) \<in> set (intervals b). out \<le> i \<or> i \<in> late)
     \<and> sorted_wrt (\<lambda>(i, out) (i', out'). i' \<le> out \<or> i' \<in> starts) (intervals b)
     \<and> (case time_in b of
          None \<Rightarrow> True
        | Some s \<Rightarrow> ((\<exists>x \<in> past. x \<le> s) \<or> s \<in> late)
                    \<and> ((\<forall>x \<in> set (time_out_list b). s \<le> x) \<or> s \<in> starts))"

text \<open>
  Home team 100 with roster 1..5 and no visitors. Player 4 is checked out at 11:00 of a
  ten-minute period; player 2 comes in at 5:00, goes out at 3:20 and is checked out once
  more at 1:40 without a check-in in between; the period ends at 0:00.
\<close>

definition overlap_game :: "event list" where
  "overlap_game =
     [ev 1 1 ''11:00'' 8 (Some 4) (Some 100) (Some 5) None,
      ev 2 1 ''5:00'' 8 (Some 1) (Some 100) (Some 2) None,
      ev 3 1 ''3:20'' 8 (Some 2) (Some 100) (Some 1) None,
      ev 4 1 ''1:40'' 8 (Some 2) (Some 100) (Some 3) None,
      ev 5 1 ''0:00'' 13 None None None None]"

text \<open>
  Home team 100 with roster 1..6, visitor team 200 with roster 11..15. Four plays name the
  ten starters; player 6 comes in for player 1 at 5:00 and player 1 comes back for player 6
  at 2:00; the period ends at 0:00.
\<close>

definition rotation_game :: "event list" where
  "rotation_game =
     [ev 1 1 ''9:00'' 1 (Some 1) (Some 100) (Some 2) (Some 3),
      ev 2 1 ''8:00'' 1 (Some 4) (Some 100) (Some 5) None,
      ev 3 1 ''7:00'' 1 (Some 11) (Some 200) (Some 12) (Some 13),
      ev 4 1 ''6:00'' 1 (Some 14) (Some 200) (Some 15) None,
      ev 5 1 ''5:00'' 8 (Some 1) (Some 100) (Some 6) None,
      ev 6 1 ''2:00'' 8 (Some 6) (Some 100) (Some 1) None,
      ev 7 1 ''0:00'' 13 None None None None]"

text \<open>A row of the frame after line 62, for examples.\<close>

definition tev :: "int \<Rightarrow> int \<Rightarrow> string \<Rightarrow> int \<Rightarrow> int option \<Rightarrow> int option \<Rightarrow> int option \<Rightarrow> int option \<Rightarrow> rat \<Rightarrow> timed_event" where
  "tev n per clock category p1 team p2 p3 t =
     \<lparr>game_id = 1, eventnum = n, period = per, pctimestring = clock, eventmsgtype = category,
      player1_id = p1, player1_team_id = team, player2_id = p2, player3_id = p3,
      game_time_remaining = t\<rparr>"

text \<open>
  Home team 100 with roster 1, 2 and no visitors, the log given last event first: the
  period end at 0:00, player 2 coming in for player 1 at 5:00, and a play of player 1 at
  9:00.
\<close>

definition reversed_game :: "event list" where
  "reversed_game =
     [ev 3 1 ''0:00'' 13 None None None None,
      ev 2 1 ''5:00'' 8 (Some 1) (Some 100) (Some 2) None,
      ev 1 1 ''9:00'' 1 (Some 1) (Some 100) None None]"

section \<open>Clock normalizer: properties\<close>

lemma split_colon_no_colon:
  "CHR '':'' \<notin> set s \<Longrightarrow> split_colon s = [s]"
  by (induction s) auto

lemma split_colon_append:
  "CHR '':'' \<notin> set m \<Longrightarrow> split_colon (m @ CHR '':'' # s) = m # split_colon s"
  by (induction m) auto

lemma split_colon_minutes_seconds:
  "CHR '':'' \<notin> set m \<Longrightarrow> CHR '':'' \<notin> set s \<Longrightarrow> split_colon (m @ CHR '':'' # s) = [m, s]"
  by (simp add: split_colon_append split_colon_no_colon)

lemma play_clock_examples:
  "play_clock_to_seconds ''5:30'' 2 = Inr (1530, 1800)"
  "play_clock_to_seconds ''0:00'' 6 = Inr (0, 300)"
  by (simp_all add: play_clock_to_seconds_def py_int_digits_def py_float_unsigned_def digit_val_def)

lemma play_clock_general:
  assumes "CHR '':'' \<notin> set ms" and "CHR '':'' \<notin> set ss"
    and "py_int ms = Inr minutes" and "py_float ss = Inr seconds"
  shows "play_clock_to_seconds (ms @ CHR '':'' # ss) p =
           Inr (if p \<le> 4 then of_int ((4 - p) * 600) + (60 * of_int minutes + seconds)
                else 60 * of_int minutes + seconds,
                if p \<le> 4 then of_int ((5 - p) * 600) else 300)"
  using assms
  by (simp add: play_clock_to_seconds_def split_colon_minutes_seconds algebra_simps)

text \<open>
  Claim C4. For a clock text \<open>ms:ss\<close> whose minutes read as \<open>minutes\<close> and whose seconds
  read as \<open>seconds\<close>, the normalizer returns
  \<open>((4 - p) * 600 + (60 * minutes + seconds), (5 - p) * 600)\<close> for a period \<open>p \<le> 4\<close> and
  \<open>(60 * minutes + seconds, 300)\<close> for a period \<open>p \<ge> 5\<close>. The clock \<^verbatim>\<open>"5:30"\<close> in
  period 2 gives \<open>(1530, 1800)\<close> and \<^verbatim>\<open>"0:00"\<close> in period 6 gives \<open>(0, 300)\<close>.
\<close>

theorem C4_play_clock_to_seconds:
  "(CHR '':'' \<notin> set ms \<longrightarrow> CHR '':'' \<notin> set ss \<longrightarrow>
    py_int ms = Inr minutes \<longrightarrow> py_float ss = Inr seconds \<longrightarrow>
      play_clock_to_seconds (ms @ CHR '':'' # ss) p =
        Inr (if p \<le> 4 then of_int ((4 - p) * 600) + (60 * of_int minutes + seconds)
             else 60 * of_int minutes + seconds,
             if p \<le> 4 then of_int ((5 - p) * 600) else 300))
   \<and> play_clock_to_seconds ''5:30'' 2 = Inr (1530, 1800)
   \<and> play_clock_to_seconds ''0:00'' 6 = Inr (0, 300)"
  using play_clock_general [of ms ss minutes seconds p] play_clock_examples by blast

theorem C4_play_clock_to_seconds_witness:
  "CHR '':'' \<notin> set ''5'' \<and> CHR '':'' \<notin> set ''30'' \<and> py_int ''5'' = Inr 5
   \<and> py_float ''30'' = Inr 30
   \<and> play_clock_to_seconds ''5:30'' 2 = Inr (1530, 1800)"
  using C4_play_clock_to_seconds [of "''5''" "''30''" 5 30 2]
  by (simp add: py_int_digits_def py_float_unsigned_def digit_val_def)

section \<open>Lineup assignment engine: properties\<close>

lemma boolean_index_map:
  "boolean_index df (map P df) = filter P df"
  unfolding boolean_index_def by (induction df) auto

lemma boolean_index_mask_and:
  "boolean_index df (mask_and (map P df) (map Q df)) = filter (\<lambda>r. P r \<and> Q r) df"
  unfolding boolean_index_def mask_and_def by (induction df) auto

lemma team_rows_filter:
  "team_rows sub_df team = filter (\<lambda>r. team_id r = team) sub_df"
  by (simp add: team_rows_def boolean_index_map)

lemma on_court_players_selection:
  "on_court_players (team_rows sub_df team) row = map player_id (selection_spec sub_df team row)"
  by (simp add: on_court_players_def selection_spec_def team_rows_filter boolean_index_map
        boolean_index_mask_and matches_period_end_def matches_substitution_def
        matches_closed_def matches_strict_def Let_def)

lemma five_columns_id:
  assumes "length xs = 5"
  shows "five_columns xs = xs"
proof -
  from assms obtain a b c d e where "xs = [a, b, c, d, e]"
    by (auto simp: length_Suc_conv numeral_eq_Suc)
  then show ?thesis by (simp add: five_columns_def)
qed

lemma assign_rows_Cons_ok:
  "five_per_side sub_df h v r \<Longrightarrow>
   assign_rows sub_df h v n (r # rows) =
     (case assign_rows sub_df h v (Suc n) rows of
        Inl e \<Rightarrow> Inl e
      | Inr out \<Rightarrow> Inr (lineup_of sub_df h v r # out))"
  by (simp add: five_per_side_def lineup_of_def five_columns_id Let_def split: sum.splits)

lemma assign_rows_Cons_bad:
  "\<not> five_per_side sub_df h v r \<Longrightarrow>
   assign_rows sub_df h v n (r # rows) =
     Inl (AssertionError
            (if length (on_court_players (team_rows sub_df h) r) \<noteq> 5 then h else v) n)"
  by (simp add: five_per_side_def Let_def)

lemma assign_rows_all_ok:
  "\<forall>row \<in> set pbp. five_per_side sub_df h v row \<Longrightarrow>
   assign_rows sub_df h v n pbp = Inr (map (lineup_of sub_df h v) pbp)"
proof (induction pbp arbitrary: n)
  case Nil
  then show ?case by simp
next
  case (Cons r pbp)
  then show ?case by (simp add: assign_rows_Cons_ok del: assign_rows.simps)
qed

lemma assign_rows_first_mismatch:
  "\<forall>r \<in> set pre. five_per_side sub_df h v r \<Longrightarrow> \<not> five_per_side sub_df h v row \<Longrightarrow>
   assign_rows sub_df h v n (pre @ row # post) =
     Inl (AssertionError
            (if length (on_court_players (team_rows sub_df h) row) \<noteq> 5 then h else v)
            (n + length pre))"
proof (induction pre arbitrary: n)
  case Nil
  then show ?case by (simp add: assign_rows_Cons_bad del: assign_rows.simps)
next
  case (Cons r pre)
  then show ?case by (simp add: assign_rows_Cons_ok del: assign_rows.simps)
qed

lemma assign_rows_Inr_iff:
  "assign_rows sub_df h v n pbp = Inr table \<longleftrightarrow>
     (\<forall>row \<in> set pbp. five_per_side sub_df h v row) \<and> table = map (lineup_of sub_df h v) pbp"
proof (cases "\<forall>row \<in> set pbp. five_per_side sub_df h v row")
  case True
  then show ?thesis by (auto simp: assign_rows_all_ok)
next
  case False
  then obtain pre row post where "pbp = pre @ row # post"
    "\<not> five_per_side sub_df h v row" "\<forall>r \<in> set pre. five_per_side sub_df h v r"
    using split_list_first_prop [of pbp "\<lambda>r. \<not> five_per_side sub_df h v r"] by auto
  then show ?thesis using False by (simp add: assign_rows_first_mismatch del: assign_rows.simps)
qed


lemma assign_players_on_court_Inr:
  assumes "assign_players_on_court sub_df pbp h v = Inr table"
  shows "length table = length pbp"
    and "map (\<lambda>r. (lineup_game_id r, lineup_eventnum r)) table = map (\<lambda>e. (game_id e, eventnum e)) pbp"
    and "\<forall>r \<in> set table. length (home_players r) = 5 \<and> length (visitor_players r) = 5"
proof -
  show "length table = length pbp"
    using assms
    by (cases sub_df) (auto simp: assign_players_on_court_def assign_rows_Inr_iff split: if_splits)
  show "map (\<lambda>r. (lineup_game_id r, lineup_eventnum r)) table = map (\<lambda>e. (game_id e, eventnum e)) pbp"
    using assms
    by (cases sub_df)
       (auto simp: assign_players_on_court_def assign_rows_Inr_iff lineup_of_def split: if_splits)
  show "\<forall>r \<in> set table. length (home_players r) = 5 \<and> length (visitor_players r) = 5"
    using assms
    by (cases sub_df)
       (auto simp: assign_players_on_court_def assign_rows_Inr_iff lineup_of_def
          five_per_side_def split: if_splits)
qed

lemma add_game_time_remaining_keys:
  "add_game_time_remaining pbp = Inr timed \<Longrightarrow>
   map (\<lambda>e. (game_id e, eventnum e)) timed = map (\<lambda>e. (game_id e, eventnum e)) pbp"
  by (induction pbp arbitrary: timed) (auto split: sum.splits prod.splits)

lemma add_game_time_remaining_length:
  "add_game_time_remaining pbp = Inr timed \<Longrightarrow> length timed = length pbp"
  by (induction pbp arbitrary: timed) (auto split: sum.splits prod.splits)

lemma process_pbp_data_ordered:
  assumes "process_pbp_data pbp hr vr h v = Inr (sub_df, ordered)"
  shows "\<exists>timed. add_game_time_remaining pbp = Inr timed \<and> ordered = sort_values timed"
  using assms by (auto simp: process_pbp_data_def split: sum.splits)

lemma mset_sort_values: "mset (sort_values xs) = mset xs"
  by (simp add: sort_values_def)

text \<open>
  Claim C3. For an event with query time \<open>t = game_time_remaining\<close> and a team, the
  engine's selection is the one the specification words: the team's intervals with
  \<open>time_out = t\<close> for a period end; those with \<open>time_in \<ge> t\<close> and \<open>time_out < t\<close> for a
  substitution; otherwise those with \<open>time_in \<ge> t\<close> and \<open>time_out \<le> t\<close>, replaced
  by those with \<open>time_in > t\<close> and \<open>time_out \<le> t\<close> when the closed filter matches more
  than five. The players are read off in frame order.
\<close>

theorem C3_interval_selection:
  "on_court_players (team_rows sub_df team) row = map player_id (selection_spec sub_df team row)"
  by (rule on_court_players_selection)

text \<open>
  Claim C1, as amended. When some event has a side whose selection does not hold exactly five
  intervals, the assignment pass returns no table: it fails at the first such event in frame
  order with the assertion error of line 181, which carries the team id (home is checked
  first) and the row index of that event, that is its position in the sorted frame, not its
  event number. On an interval table without columns the pass fails with \<open>KeyError\<close> at
  the first event.
\<close>

theorem C1_mismatch_fails_with_row_index:
  "(row \<in> set pbp_df \<longrightarrow> \<not> five_per_side rows home_id visitor_id row \<longrightarrow>
      (\<exists>pre bad post.
          pbp_df = pre @ bad # post
          \<and> (\<forall>r \<in> set pre. five_per_side rows home_id visitor_id r)
          \<and> \<not> five_per_side rows home_id visitor_id bad
          \<and> assign_players_on_court (Frame rows) pbp_df home_id visitor_id =
              Inl (AssertionError
                     (if length (on_court_players (team_rows rows home_id) bad) \<noteq> 5
                      then home_id else visitor_id)
                     (length pre))))
   \<and> (pbp_df \<noteq> [] \<longrightarrow>
        assign_players_on_court NoColumns pbp_df home_id visitor_id = Inl KeyError)"
proof (intro conjI impI)
  assume "row \<in> set pbp_df" and "\<not> five_per_side rows home_id visitor_id row"
  then obtain pre bad post where split: "pbp_df = pre @ bad # post"
    "\<not> five_per_side rows home_id visitor_id bad"
    "\<forall>r \<in> set pre. five_per_side rows home_id visitor_id r"
    using split_list_first_prop [of pbp_df "\<lambda>r. \<not> five_per_side rows home_id visitor_id r"]
    by auto
  then have "assign_players_on_court (Frame rows) pbp_df home_id visitor_id =
      Inl (AssertionError
             (if length (on_court_players (team_rows rows home_id) bad) \<noteq> 5
              then home_id else visitor_id)
             (length pre))"
    using assign_rows_first_mismatch [of pre rows home_id visitor_id bad 0 post]
    by (simp add: assign_players_on_court_def del: assign_rows.simps)
  with split show "\<exists>pre bad post.
          pbp_df = pre @ bad # post
          \<and> (\<forall>r \<in> set pre. five_per_side rows home_id visitor_id r)
          \<and> \<not> five_per_side rows home_id visitor_id bad
          \<and> assign_players_on_court (Frame rows) pbp_df home_id visitor_id =
              Inl (AssertionError
                     (if length (on_court_players (team_rows rows home_id) bad) \<noteq> 5
                      then home_id else visitor_id)
                     (length pre))"
    by blast
next
  assume "pbp_df \<noteq> []"
  then show "assign_players_on_court NoColumns pbp_df home_id visitor_id = Inl KeyError"
    by (simp add: assign_players_on_court_def)
qed

text \<open>
  The claim as stated fails: the only event of \<open>lone_marker_game\<close> has event number 7,
  and the error carries the row index 0.
\<close>

theorem C1_counterexample:
  "(case process_pbp_data lone_marker_game [1] [] 100 200 of
      Inl e \<Rightarrow> False
    | Inr (sub_df, pbp_df) \<Rightarrow>
        map eventnum pbp_df = [7]
        \<and> assign_players_on_court sub_df pbp_df 100 200 = Inl (AssertionError 100 0))"
  by code_simp

text \<open>
  Claim C2, as amended. When both passes complete, the lineup table has one row per input
  event, keyed by the game id and event number of the events in processing order, and every
  row holds exactly five home player ids and exactly five visitor player ids. (The ids need
  not be distinct.)
\<close>

theorem C2_one_row_per_event_five_per_side:
  assumes "process_pbp_data pbp_df home_roster visitor_roster home_id visitor_id
             = Inr (sub_df, ordered)"
    and "assign_players_on_court sub_df ordered home_id visitor_id = Inr table"
  shows "length table = length pbp_df
    \<and> map (\<lambda>r. (lineup_game_id r, lineup_eventnum r)) table
        = map (\<lambda>e. (game_id e, eventnum e)) ordered
    \<and> mset (map (\<lambda>e. (game_id e, eventnum e)) ordered)
        = mset (map (\<lambda>e. (game_id e, eventnum e)) pbp_df)
    \<and> (\<forall>r \<in> set table. length (home_players r) = 5 \<and> length (visitor_players r) = 5)"
proof -
  from assms(1) obtain timed where timed: "add_game_time_remaining pbp_df = Inr timed"
    "ordered = sort_values timed"
    using process_pbp_data_ordered by blast
  have "mset (map (\<lambda>e. (game_id e, eventnum e)) ordered)
      = mset (map (\<lambda>e. (game_id e, eventnum e)) timed)"
    using timed(2) mset_sort_values [of timed] by (metis mset_map)
  moreover have "length ordered = length pbp_df"
    using timed add_game_time_remaining_length [OF timed(1)] mset_sort_values [of timed]
    by (metis size_mset)
  ultimately show ?thesis
    using assign_players_on_court_Inr [OF assms(2)] add_game_time_remaining_keys [OF timed(1)]
    by simp
qed

text \<open>
  The claim as stated fails: in \<open>double_checkout_game\<close> both passes complete and the row
  of the first event lists player 4 twice for the home side.
\<close>

theorem C2_counterexample:
  "(case process_pbp_data double_checkout_game [1, 2, 3, 4, 5, 6] [11, 12, 13, 14, 15] 100 200 of
      Inl e \<Rightarrow> False
    | Inr (sub_df, pbp_df) \<Rightarrow>
        (case assign_players_on_court sub_df pbp_df 100 200 of
           Inl e \<Rightarrow> False
         | Inr table \<Rightarrow>
             home_players (table ! 0) = [1, 2, 3, 4, 4]
             \<and> \<not> distinct (home_players (table ! 0))))"
  by code_simp


theorem C1_mismatch_fails_with_row_index_witness:
  "\<lparr>game_id = 1, eventnum = 7, period = 1, pctimestring = ''10:00'', eventmsgtype = 12,
     player1_id = None, player1_team_id = None, player2_id = None, player3_id = None,
     game_time_remaining = 2400\<rparr>
     \<in> set [\<lparr>game_id = 1, eventnum = 7, period = 1, pctimestring = ''10:00'',
               eventmsgtype = 12, player1_id = None, player1_team_id = None,
               player2_id = None, player3_id = None, game_time_remaining = 2400\<rparr>]
   \<and> \<not> five_per_side [] 100 200
         \<lparr>game_id = 1, eventnum = 7, period = 1, pctimestring = ''10:00'', eventmsgtype = 12,
          player1_id = None, player1_team_id = None, player2_id = None, player3_id = None,
          game_time_remaining = 2400\<rparr>
   \<and> assign_players_on_court (Frame [])
         [\<lparr>game_id = 1, eventnum = 7, period = 1, pctimestring = ''10:00'', eventmsgtype = 12,
           player1_id = None, player1_team_id = None, player2_id = None, player3_id = None,
           game_time_remaining = 2400\<rparr>] 100 200
       = Inl (AssertionError 100 0)
   \<and> [\<lparr>game_id = 1, eventnum = 7, period = 1, pctimestring = ''10:00'', eventmsgtype = 12,
         player1_id = None, player1_team_id = None, player2_id = None, player3_id = None,
         game_time_remaining = 2400\<rparr>] \<noteq> []
   \<and> assign_players_on_court NoColumns
         [\<lparr>game_id = 1, eventnum = 7, period = 1, pctimestring = ''10:00'', eventmsgtype = 12,
           player1_id = None, player1_team_id = None, player2_id = None, player3_id = None,
           game_time_remaining = 2400\<rparr>] 100 200
       = Inl KeyError"
proof -
  let ?row = "\<lparr>game_id = 1, eventnum = 7, period = 1, pctimestring = ''10:00'',
     eventmsgtype = 12, player1_id = None, player1_team_id = None, player2_id = None,
     player3_id = None, game_time_remaining = 2400\<rparr>"
  have mem: "?row \<in> set [?row]" by simp
  have bad: "\<not> five_per_side [] 100 200 ?row"
    by (simp add: five_per_side_def on_court_players_def team_rows_def boolean_index_def
          mask_and_def)
  from C1_mismatch_fails_with_row_index [of ?row "[?row]" "[]" 100 200] mem bad
  obtain pre b post where split: "[?row] = pre @ b # post"
    and res: "assign_players_on_court (Frame []) [?row] 100 200 =
      Inl (AssertionError
             (if length (on_court_players (team_rows [] 100) b) \<noteq> 5 then 100 else 200)
             (length pre))"
    by blast
  from split have "pre = []" and "b = ?row"
    by (auto simp: Cons_eq_append_conv)
  with res have "assign_players_on_court (Frame []) [?row] 100 200 = Inl (AssertionError 100 0)"
    by (simp add: on_court_players_def team_rows_def boolean_index_def mask_and_def)
  moreover have ne: "[?row] \<noteq> []" by simp
  moreover from C1_mismatch_fails_with_row_index [of ?row "[?row]" "[]" 100 200] ne
  have "assign_players_on_court NoColumns [?row] 100 200 = Inl KeyError" by blast
  ultimately show ?thesis using mem bad by blast
qed

theorem C2_one_row_per_event_five_per_side_witness:
  "\<exists>sub_df ordered table.
      process_pbp_data double_checkout_game [1, 2, 3, 4, 5, 6] [11, 12, 13, 14, 15] 100 200
        = Inr (sub_df, ordered)
      \<and> assign_players_on_court sub_df ordered 100 200 = Inr table
      \<and> length table = 6
      \<and> (\<forall>r \<in> set table. length (home_players r) = 5 \<and> length (visitor_players r) = 5)"
proof -
  have run: "(case process_pbp_data double_checkout_game [1, 2, 3, 4, 5, 6]
                     [11, 12, 13, 14, 15] 100 200 of
                Inl e \<Rightarrow> False
              | Inr (sub_df, pbp_df) \<Rightarrow>
                  (case assign_players_on_court sub_df pbp_df 100 200 of
                     Inl e \<Rightarrow> False
                   | Inr table \<Rightarrow> True))"
    by code_simp
  then obtain sub_df ordered where
    p: "process_pbp_data double_checkout_game [1, 2, 3, 4, 5, 6] [11, 12, 13, 14, 15] 100 200
          = Inr (sub_df, ordered)"
    by (cases "process_pbp_data double_checkout_game [1, 2, 3, 4, 5, 6]
                 [11, 12, 13, 14, 15] 100 200") auto
  with run obtain table where
    a: "assign_players_on_court sub_df ordered 100 200 = Inr table"
    by (cases "assign_players_on_court sub_df ordered 100 200") auto
  have "length double_checkout_game = 6"
    by (simp add: double_checkout_game_def)
  with C2_one_row_per_event_five_per_side [OF p a] p a show ?thesis
    by auto
qed

section \<open>Event sequencer: properties\<close>

lemma sort_columns_le_iff:
  "sort_columns a \<le> sort_columns b \<longleftrightarrow> precedes a b"
  by (auto simp: sort_columns_def precedes_def less_eq_prod_def)

lemma sorted_wrt_precedes_iff:
  "sorted_wrt precedes xs \<longleftrightarrow> sorted (map sort_columns xs)"
  by (simp add: sorted_map sort_columns_le_iff)

lemma sorted_wrt_precedes_sort_values:
  "sorted_wrt precedes (sort_values xs)"
  by (simp add: sorted_wrt_precedes_iff sort_values_def)

lemma add_game_time_remaining_eventnum:
  "add_game_time_remaining pbp = Inr timed \<Longrightarrow> map eventnum timed = map eventnum pbp"
  by (induction pbp arbitrary: timed) (auto split: sum.splits prod.splits)

lemma sort_columns_inj_on:
  assumes "distinct (map eventnum xs)"
  shows "inj_on sort_columns (set xs)"
proof (rule inj_onI)
  fix a b
  assume "a \<in> set xs" "b \<in> set xs" "sort_columns a = sort_columns b"
  then have "eventnum a = eventnum b" by (simp add: sort_columns_def)
  with assms \<open>a \<in> set xs\<close> \<open>b \<in> set xs\<close> show "a = b"
    by (meson distinct_map inj_onD)
qed

lemma sorted_permutation_unique:
  assumes d: "distinct (map eventnum xs)"
    and m: "mset ys = mset xs"
    and s: "sorted_wrt precedes ys"
  shows "ys = sort_values xs"
proof -
  have inj: "inj_on sort_columns (set xs)" using d by (rule sort_columns_inj_on)
  have dx: "distinct xs" using d by (simp add: distinct_map)
  have sets: "set ys = set xs" using m by (rule mset_eq_setD)
  have dy: "distinct ys" using dx m by (metis mset_eq_imp_distinct_iff)
  have sv: "set (sort_values xs) = set xs" "distinct (sort_values xs)"
    using dx by (simp_all add: sort_values_def)
  have "map sort_columns ys = map sort_columns (sort_values xs)"
  proof (rule sorted_distinct_set_unique)
    show "sorted (map sort_columns ys)" using s by (simp add: sorted_wrt_precedes_iff)
    show "distinct (map sort_columns ys)"
      using dy inj sets by (simp add: distinct_map)
    show "sorted (map sort_columns (sort_values xs))"
      by (simp add: sort_values_def)
    show "distinct (map sort_columns (sort_values xs))"
      using sv inj by (simp add: distinct_map)
    show "set (map sort_columns ys) = set (map sort_columns (sort_values xs))"
      using sets sv by simp
  qed
  then show ?thesis
    using inj sets sv(1) by (metis inj_on_map_eq_map Un_absorb inj_on_Un)
qed

subsection \<open>The loop applies its body to the rows one after the other\<close>

lemma run_events_trace:
  "run_events hr vr h st rows = Inr st' \<Longrightarrow>
   \<exists>states. length states = Suc (length rows) \<and> states ! 0 = st
     \<and> (\<forall>i<length rows. step hr vr h (states ! i) (rows ! i) = Inr (states ! Suc i))
     \<and> states ! length rows = st'"
proof (induction rows arbitrary: st)
  case Nil
  then have "length [st] = Suc (length ([] :: 'a event_scheme list)) \<and> [st] ! 0 = st
     \<and> [st] ! length ([] :: 'a event_scheme list) = st'"
    by simp
  then show ?case by (intro exI [of _ "[st]"]) simp
next
  case (Cons row rows)
  from Cons.prems obtain st1 where s: "step hr vr h st row = Inr st1"
    and r: "run_events hr vr h st1 rows = Inr st'"
    by (auto split: sum.splits)
  from Cons.IH [OF r] obtain states where
    len: "length states = Suc (length rows)" and first: "states ! 0 = st1"
    and steps: "\<forall>i<length rows. step hr vr h (states ! i) (rows ! i) = Inr (states ! Suc i)"
    and final: "states ! length rows = st'"
    by blast
  have "\<forall>i<length (row # rows).
      step hr vr h ((st # states) ! i) ((row # rows) ! i) = Inr ((st # states) ! Suc i)"
  proof (intro allI impI)
    fix i
    assume "i < length (row # rows)"
    then show "step hr vr h ((st # states) ! i) ((row # rows) ! i) = Inr ((st # states) ! Suc i)"
      using s first steps by (cases i) simp_all
  qed
  moreover have "length (st # states) = Suc (length (row # rows))" using len by simp
  moreover have "(st # states) ! 0 = st" by simp
  moreover have "(st # states) ! length (row # rows) = st'" using final by simp
  ultimately show ?case by blast
qed

lemma run_events_failing_trace:
  "run_events hr vr h st rows = Inl e \<Longrightarrow>
   \<exists>k states. k < length rows \<and> length states = Suc k \<and> states ! 0 = st
     \<and> (\<forall>i<k. step hr vr h (states ! i) (rows ! i) = Inr (states ! Suc i))
     \<and> step hr vr h (states ! k) (rows ! k) = Inl e"
proof (induction rows arbitrary: st)
  case Nil
  then show ?case by simp
next
  case (Cons row rows)
  show ?case
  proof (cases "step hr vr h st row")
    case (Inl e')
    with Cons.prems have "e' = e" by simp
    with Inl have "0 < length (row # rows) \<and> length [st] = Suc 0 \<and> [st] ! 0 = st
      \<and> (\<forall>i<0. step hr vr h ([st] ! i) ((row # rows) ! i) = Inr ([st] ! Suc i))
      \<and> step hr vr h ([st] ! 0) ((row # rows) ! 0) = Inl e"
      by simp
    then show ?thesis by blast
  next
    case (Inr st1)
    with Cons.prems have r: "run_events hr vr h st1 rows = Inl e" by simp
    from Cons.IH [OF r] obtain k states where
      k: "k < length rows" and len: "length states = Suc k" and first: "states ! 0 = st1"
      and steps: "\<forall>i<k. step hr vr h (states ! i) (rows ! i) = Inr (states ! Suc i)"
      and fails: "step hr vr h (states ! k) (rows ! k) = Inl e"
      by blast
    have "\<forall>i<Suc k.
        step hr vr h ((st # states) ! i) ((row # rows) ! i) = Inr ((st # states) ! Suc i)"
    proof (intro allI impI)
      fix i
      assume "i < Suc k"
      then show "step hr vr h ((st # states) ! i) ((row # rows) ! i)
                   = Inr ((st # states) ! Suc i)"
        using Inr first steps by (cases i) simp_all
    qed
    moreover have "Suc k < length (row # rows)" using k by simp
    moreover have "length (st # states) = Suc (Suc k)" using len by simp
    moreover have "(st # states) ! 0 = st" by simp
    moreover have "step hr vr h ((st # states) ! Suc k) ((row # rows) ! Suc k) = Inl e"
      using fails by simp
    ultimately show ?thesis by blast
  qed
qed

text \<open>
  Claim C9. The rows the state machine consumes are a permutation of the timed events that
  is sorted by game time remaining descending, then period ascending, then event number
  ascending; when the event numbers are pairwise different, it is the only such
  permutation. When \<^verbatim>\<open>process_pbp_data\<close> returns, the frame it returns is that order, and
  the loop body has been applied to its rows one after the other, starting from the initial
  state and handing each resulting state to the next row, and the interval table is built
  from the last state. When \<^verbatim>\<open>process_pbp_data\<close> fails, either the loop body failed with
  that error on a row of that order after having been applied to all rows before it, or
  the loop ran over all rows and the construction of the interval table failed.
\<close>

theorem C9_processing_order:
  assumes "add_game_time_remaining pbp_df = Inr timed"
  shows "\<exists>ordered.
      mset ordered = mset timed
    \<and> sorted_wrt precedes ordered
    \<and> (distinct (map eventnum pbp_df) \<longrightarrow>
         (\<forall>ys. mset ys = mset timed \<and> sorted_wrt precedes ys \<longrightarrow> ys = ordered))
    \<and> (\<forall>sub_df out.
          process_pbp_data pbp_df home_roster visitor_roster home_id visitor_id
            = Inr (sub_df, out) \<longrightarrow>
          out = ordered
          \<and> (\<exists>states.
                length states = Suc (length ordered)
              \<and> states ! 0 = init_state home_roster visitor_roster
              \<and> (\<forall>i<length ordered.
                    step home_roster visitor_roster home_id (states ! i) (ordered ! i)
                      = Inr (states ! Suc i))
              \<and> build_sub_df home_roster home_id visitor_id
                    (time_on_court (states ! length ordered)) NoColumns = Inr sub_df))
    \<and> (\<forall>e. process_pbp_data pbp_df home_roster visitor_roster home_id visitor_id = Inl e \<longrightarrow>
          (\<exists>k states.
                k < length ordered \<and> length states = Suc k
              \<and> states ! 0 = init_state home_roster visitor_roster
              \<and> (\<forall>i<k. step home_roster visitor_roster home_id (states ! i) (ordered ! i)
                      = Inr (states ! Suc i))
              \<and> step home_roster visitor_roster home_id (states ! k) (ordered ! k) = Inl e)
          \<or> (\<exists>states.
                length states = Suc (length ordered)
              \<and> states ! 0 = init_state home_roster visitor_roster
              \<and> (\<forall>i<length ordered.
                    step home_roster visitor_roster home_id (states ! i) (ordered ! i)
                      = Inr (states ! Suc i))
              \<and> build_sub_df home_roster home_id visitor_id
                    (time_on_court (states ! length ordered)) NoColumns = Inl e))"
proof (intro exI [of _ "sort_values timed"] conjI impI allI)
  show "mset (sort_values timed) = mset timed" by (simp add: sort_values_def)
  show "sorted_wrt precedes (sort_values timed)" by (rule sorted_wrt_precedes_sort_values)
next
  fix ys
  assume "distinct (map eventnum pbp_df)" and "mset ys = mset timed \<and> sorted_wrt precedes ys"
  then show "ys = sort_values timed"
    using sorted_permutation_unique [of timed ys] add_game_time_remaining_eventnum [OF assms]
    by simp
next
  fix sub_df out
  assume ok: "process_pbp_data pbp_df home_roster visitor_roster home_id visitor_id
            = Inr (sub_df, out)"
  then show "out = sort_values timed"
    using assms by (auto simp: process_pbp_data_def split: sum.splits)
  from ok assms obtain st where
    run: "run_events home_roster visitor_roster home_id
            (init_state home_roster visitor_roster) (sort_values timed) = Inr st"
    and build: "build_sub_df home_roster home_id visitor_id (time_on_court st) NoColumns
                  = Inr sub_df"
    by (auto simp: process_pbp_data_def split: sum.splits)
  from run_events_trace [OF run] build
  show "\<exists>states.
                length states = Suc (length (sort_values timed))
              \<and> states ! 0 = init_state home_roster visitor_roster
              \<and> (\<forall>i<length (sort_values timed).
                    step home_roster visitor_roster home_id (states ! i) (sort_values timed ! i)
                      = Inr (states ! Suc i))
              \<and> build_sub_df home_roster home_id visitor_id
                    (time_on_court (states ! length (sort_values timed))) NoColumns = Inr sub_df"
    by auto
next
  fix e
  assume bad: "process_pbp_data pbp_df home_roster visitor_roster home_id visitor_id = Inl e"
  show "(\<exists>k states.
                k < length (sort_values timed) \<and> length states = Suc k
              \<and> states ! 0 = init_state home_roster visitor_roster
              \<and> (\<forall>i<k. step home_roster visitor_roster home_id (states ! i)
                          (sort_values timed ! i)
                      = Inr (states ! Suc i))
              \<and> step home_roster visitor_roster home_id (states ! k) (sort_values timed ! k)
                   = Inl e)
          \<or> (\<exists>states.
                length states = Suc (length (sort_values timed))
              \<and> states ! 0 = init_state home_roster visitor_roster
              \<and> (\<forall>i<length (sort_values timed).
                    step home_roster visitor_roster home_id (states ! i) (sort_values timed ! i)
                      = Inr (states ! Suc i))
              \<and> build_sub_df home_roster home_id visitor_id
                    (time_on_court (states ! length (sort_values timed))) NoColumns = Inl e)"
  proof (cases "run_events home_roster visitor_roster home_id
            (init_state home_roster visitor_roster) (sort_values timed)")
    case (Inl e')
    with bad assms have "e' = e" by (simp add: process_pbp_data_def)
    with run_events_failing_trace [OF Inl] show ?thesis by blast
  next
    case (Inr st)
    with bad assms have
      "build_sub_df home_roster home_id visitor_id (time_on_court st) NoColumns = Inl e"
      by (auto simp: process_pbp_data_def split: sum.splits)
    with run_events_trace [OF Inr] show ?thesis by auto
  qed
qed


theorem C9_processing_order_witness:
  "add_game_time_remaining reversed_game =
     Inr [tev 3 1 ''0:00'' 13 None None None None 1800,
          tev 2 1 ''5:00'' 8 (Some 1) (Some 100) (Some 2) None 2100,
          tev 1 1 ''9:00'' 1 (Some 1) (Some 100) None None 2340]
   \<and> distinct (map eventnum reversed_game)
   \<and> (\<exists>sub_df ordered states.
          process_pbp_data reversed_game [1, 2] [] 100 200 = Inr (sub_df, ordered)
        \<and> map eventnum ordered = [1, 2, 3]
        \<and> map (\<lambda>r. (player_id r, sub_time_in r, sub_time_out r)) (frame_rows sub_df)
            = [(1, 2400, 2100), (2, 2100, 1800)]
        \<and> length states = Suc (length ordered)
        \<and> states ! 0 = init_state [1, 2] []
        \<and> (\<forall>i<length ordered. step [1, 2] [] 100 (states ! i) (ordered ! i)
                                  = Inr (states ! Suc i))
        \<and> build_sub_df [1, 2] 100 200 (time_on_court (states ! length ordered)) NoColumns
            = Inr sub_df)
   \<and> (case run_events [1, 2] [] 100 (init_state [1, 2] [])
              [tev 3 1 ''0:00'' 13 None None None None 1800,
               tev 2 1 ''5:00'' 8 (Some 1) (Some 100) (Some 2) None 2100,
               tev 1 1 ''9:00'' 1 (Some 1) (Some 100) None None 2340] of
         Inl e \<Rightarrow> False
       | Inr st \<Rightarrow> build_sub_df [1, 2] 100 200 (time_on_court st) NoColumns = Inl ValueError)
   \<and> add_game_time_remaining [ev 1 1 ''9:00'' 8 (Some 99) (Some 100) (Some 2) None]
       = Inr [tev 1 1 ''9:00'' 8 (Some 99) (Some 100) (Some 2) None 2340]
   \<and> process_pbp_data [ev 1 1 ''9:00'' 8 (Some 99) (Some 100) (Some 2) None] [1, 2] [] 100 200
       = Inl KeyError
   \<and> (\<exists>ordered.
          mset ordered = mset [tev 1 1 ''9:00'' 8 (Some 99) (Some 100) (Some 2) None 2340]
        \<and> ((\<exists>k states.
                k < length ordered \<and> length states = Suc k
              \<and> states ! 0 = init_state [1, 2] []
              \<and> (\<forall>i<k. step [1, 2] [] 100 (states ! i) (ordered ! i) = Inr (states ! Suc i))
              \<and> step [1, 2] [] 100 (states ! k) (ordered ! k) = Inl KeyError)
          \<or> (\<exists>states.
                length states = Suc (length ordered)
              \<and> states ! 0 = init_state [1, 2] []
              \<and> (\<forall>i<length ordered.
                    step [1, 2] [] 100 (states ! i) (ordered ! i) = Inr (states ! Suc i))
              \<and> build_sub_df [1, 2] 100 200 (time_on_court (states ! length ordered)) NoColumns
                  = Inl KeyError)))"
proof -
  let ?timed = "[tev 3 1 ''0:00'' 13 None None None None 1800,
          tev 2 1 ''5:00'' 8 (Some 1) (Some 100) (Some 2) None 2100,
          tev 1 1 ''9:00'' 1 (Some 1) (Some 100) None None 2340]"
  have t: "add_game_time_remaining reversed_game = Inr ?timed" by code_simp
  have d: "distinct (map eventnum reversed_game)" by code_simp
  have unsorted: "(case run_events [1, 2] [] 100 (init_state [1, 2] []) ?timed of
         Inl e \<Rightarrow> False
       | Inr st \<Rightarrow> build_sub_df [1, 2] 100 200 (time_on_court st) NoColumns = Inl ValueError)"
    by code_simp
  have "(case process_pbp_data reversed_game [1, 2] [] 100 200 of
           Inl e \<Rightarrow> False
         | Inr (sub_df, ordered) \<Rightarrow>
             map eventnum ordered = [1, 2, 3]
             \<and> map (\<lambda>r. (player_id r, sub_time_in r, sub_time_out r)) (frame_rows sub_df)
                 = [(1, 2400, 2100), (2, 2100, 1800)])"
    by code_simp
  then obtain sub_df ordered where
    p: "process_pbp_data reversed_game [1, 2] [] 100 200 = Inr (sub_df, ordered)"
    and nums: "map eventnum ordered = [1, 2, 3]"
    and rows: "map (\<lambda>r. (player_id r, sub_time_in r, sub_time_out r)) (frame_rows sub_df)
                 = [(1, 2400, 2100), (2, 2100, 1800)]"
    by (cases "process_pbp_data reversed_game [1, 2] [] 100 200") auto
  from C9_processing_order [OF t, of "[1, 2]" "[]" 100 200] p
  obtain states where tr: "length states = Suc (length ordered)"
    "states ! 0 = init_state [1, 2] []"
    "\<forall>i<length ordered. step [1, 2] [] 100 (states ! i) (ordered ! i) = Inr (states ! Suc i)"
    "build_sub_df [1, 2] 100 200 (time_on_court (states ! length ordered)) NoColumns
       = Inr sub_df"
    by blast
  have good: "\<exists>sub_df ordered states.
          process_pbp_data reversed_game [1, 2] [] 100 200 = Inr (sub_df, ordered)
        \<and> map eventnum ordered = [1, 2, 3]
        \<and> map (\<lambda>r. (player_id r, sub_time_in r, sub_time_out r)) (frame_rows sub_df)
            = [(1, 2400, 2100), (2, 2100, 1800)]
        \<and> length states = Suc (length ordered)
        \<and> states ! 0 = init_state [1, 2] []
        \<and> (\<forall>i<length ordered. step [1, 2] [] 100 (states ! i) (ordered ! i)
                                  = Inr (states ! Suc i))
        \<and> build_sub_df [1, 2] 100 200 (time_on_court (states ! length ordered)) NoColumns
            = Inr sub_df"
    by (intro exI [of _ sub_df] exI [of _ ordered] exI [of _ states] conjI p nums rows tr)
  have t': "add_game_time_remaining [ev 1 1 ''9:00'' 8 (Some 99) (Some 100) (Some 2) None]
       = Inr [tev 1 1 ''9:00'' 8 (Some 99) (Some 100) (Some 2) None 2340]"
    by code_simp
  have bad: "process_pbp_data [ev 1 1 ''9:00'' 8 (Some 99) (Some 100) (Some 2) None]
               [1, 2] [] 100 200 = Inl KeyError"
    by code_simp
  from C9_processing_order [OF t', of "[1, 2]" "[]" 100 200] bad
  have failing: "\<exists>ordered.
          mset ordered = mset [tev 1 1 ''9:00'' 8 (Some 99) (Some 100) (Some 2) None 2340]
        \<and> ((\<exists>k states.
                k < length ordered \<and> length states = Suc k
              \<and> states ! 0 = init_state [1, 2] []
              \<and> (\<forall>i<k. step [1, 2] [] 100 (states ! i) (ordered ! i) = Inr (states ! Suc i))
              \<and> step [1, 2] [] 100 (states ! k) (ordered ! k) = Inl KeyError)
          \<or> (\<exists>states.
                length states = Suc (length ordered)
              \<and> states ! 0 = init_state [1, 2] []
              \<and> (\<forall>i<length ordered.
                    step [1, 2] [] 100 (states ! i) (ordered ! i) = Inr (states ! Suc i))
              \<and> build_sub_df [1, 2] 100 200 (time_on_court (states ! length ordered)) NoColumns
                  = Inl KeyError))"
    by blast
  show ?thesis by (intro conjI t d good unsorted t' bad failing)
qed

section \<open>State machine: one substitution\<close>

lemma remove_if_present_remove1:
  "remove_if_present p xs = remove1 p xs"
  by (simp add: remove_if_present_def remove1_idem)

lemma substitution_known:
  assumes "player1_id row = Some p1" and "player2_id row = Some p2"
    and "map_of (time_on_court st) p1 = Some b1" and "map_of (time_on_court st) p2 = Some b2"
  shows "substitution home_id st row t mpt =
     (let out = check_out t mpt (cur_period st) b1;
          toc2 = AList.update p2 (check_in t (if p2 = p1 then out else b2))
                   (AList.update p1 out (time_on_court st))
      in if player1_team_id row = Some home_id
         then Inr (st\<lparr>home_on_court :=
                       append_if_absent p2 (remove_if_present p1 (home_on_court st)),
                     time_on_court := toc2\<rparr>)
         else Inr (st\<lparr>visitor_on_court :=
                       append_if_absent p2 (remove_if_present p1 (visitor_on_court st)),
                     time_on_court := toc2\<rparr>))"
  using assms by (simp add: substitution_def Let_def update_conv')

lemma check_out_fields:
  "check_out t mpt per b =
     \<lparr>playing_time = playing_time b + (case time_in b of None \<Rightarrow> mpt - t | Some s \<Rightarrow> s - t),
      time_in = None,
      time_in_list = (case time_in b of None \<Rightarrow> time_in_list b @ [mpt]
                      | Some s \<Rightarrow> time_in_list b),
      time_out_list = time_out_list b @ [t],
      period_list = period_list b @ [per]\<rparr>"
  by (simp add: check_out_def split: option.splits)

text \<open>
  Claim C5. A substitution event at time \<open>t\<close> whose two players are keys of the time bank
  succeeds. It removes the outgoing player \<open>p1\<close> from the on-court list of the team named by
  \<^verbatim>\<open>player1_team_id\<close> (home when it equals the home id, visitor otherwise) and appends the
  incoming player \<open>p2\<close> when absent. The outgoing entry accrues \<open>max_period_time - t\<close> and
  records a check-in at \<open>max_period_time\<close> when its stored check-in is null, and accrues
  \<open>stored_check_in - t\<close> otherwise; its stored check-in is cleared, \<open>t\<close> is appended to its
  check-outs and the period counter to its period history. The incoming entry then gets the
  stored check-in \<open>t\<close>, appended to its check-ins. Every other entry is unchanged. With
  \<open>t = 1000\<close>, \<open>max_period_time = 1530\<close> and a null stored check-in the outgoing player accrues
  530 and its interval is \<open>(1530, 1000)\<close>.
\<close>

theorem C5_substitution_event:
  "(eventmsgtype row = 8 \<longrightarrow>
    play_clock_to_seconds (pctimestring row) (period row) = Inr (t, max_period_time) \<longrightarrow>
    player1_id row = Some p1 \<longrightarrow> player2_id row = Some p2 \<longrightarrow>
    map_of (time_on_court st) p1 = Some b1 \<longrightarrow> map_of (time_on_court st) p2 = Some b2 \<longrightarrow>
      (\<exists>st'. step home_roster visitor_roster home_id st row = Inr st'
         \<and> (let swap = (\<lambda>on_court. if p2 \<in> set (remove1 p1 on_court) then remove1 p1 on_court
                                     else remove1 p1 on_court @ [p2])
            in if player1_team_id row = Some home_id
               then home_on_court st' = swap (home_on_court st)
                    \<and> visitor_on_court st' = visitor_on_court st
               else visitor_on_court st' = swap (visitor_on_court st)
                    \<and> home_on_court st' = home_on_court st)
         \<and> cur_period st' = cur_period st
         \<and> (let out = \<lparr>playing_time = playing_time b1
                          + (case time_in b1 of None \<Rightarrow> max_period_time - t | Some s \<Rightarrow> s - t),
                        time_in = None,
                        time_in_list = (case time_in b1 of
                                          None \<Rightarrow> time_in_list b1 @ [max_period_time]
                                        | Some s \<Rightarrow> time_in_list b1),
                        time_out_list = time_out_list b1 @ [t],
                        period_list = period_list b1 @ [cur_period st]\<rparr>;
                 inc = (if p2 = p1 then out else b2)
             in map_of (time_on_court st') =
                  (map_of (time_on_court st))
                    (p1 \<mapsto> out,
                     p2 \<mapsto> inc\<lparr>time_in := Some t, time_in_list := time_in_list inc @ [t]\<rparr>))))
   \<and> substitution 100
        \<lparr>home_on_court = [1], visitor_on_court = [], cur_period = 1,
         time_on_court = [(1, empty_bank), (2, empty_bank)]\<rparr>
        (ev 1 1 '''' 8 (Some 1) (Some 100) (Some 2) None) 1000 1530
      = Inr \<lparr>home_on_court = [2], visitor_on_court = [], cur_period = 1,
             time_on_court =
               [(1, \<lparr>playing_time = 530, time_in = None, time_in_list = [1530],
                     time_out_list = [1000], period_list = [1]\<rparr>),
                (2, \<lparr>playing_time = 0, time_in = Some 1000, time_in_list = [1000],
                     time_out_list = [], period_list = []\<rparr>)]\<rparr>"
proof (intro conjI impI)
  assume ty: "eventmsgtype row = 8"
    and clock: "play_clock_to_seconds (pctimestring row) (period row) = Inr (t, max_period_time)"
    and p: "player1_id row = Some p1" "player2_id row = Some p2"
    and b: "map_of (time_on_court st) p1 = Some b1" "map_of (time_on_court st) p2 = Some b2"
  have st: "step home_roster visitor_roster home_id st row =
      substitution home_id st row t max_period_time"
    using ty clock by (simp add: step_def)
  show "\<exists>st'. step home_roster visitor_roster home_id st row = Inr st'
         \<and> (let swap = (\<lambda>on_court. if p2 \<in> set (remove1 p1 on_court) then remove1 p1 on_court
                                     else remove1 p1 on_court @ [p2])
            in if player1_team_id row = Some home_id
               then home_on_court st' = swap (home_on_court st)
                    \<and> visitor_on_court st' = visitor_on_court st
               else visitor_on_court st' = swap (visitor_on_court st)
                    \<and> home_on_court st' = home_on_court st)
         \<and> cur_period st' = cur_period st
         \<and> (let out = \<lparr>playing_time = playing_time b1
                          + (case time_in b1 of None \<Rightarrow> max_period_time - t | Some s \<Rightarrow> s - t),
                        time_in = None,
                        time_in_list = (case time_in b1 of
                                          None \<Rightarrow> time_in_list b1 @ [max_period_time]
                                        | Some s \<Rightarrow> time_in_list b1),
                        time_out_list = time_out_list b1 @ [t],
                        period_list = period_list b1 @ [cur_period st]\<rparr>;
                 inc = (if p2 = p1 then out else b2)
             in map_of (time_on_court st') =
                  (map_of (time_on_court st))
                    (p1 \<mapsto> out,
                     p2 \<mapsto> inc\<lparr>time_in := Some t, time_in_list := time_in_list inc @ [t]\<rparr>))"
    unfolding st substitution_known [OF p b]
    by (simp add: Let_def update_conv' check_in_def check_out_fields remove_if_present_remove1
          append_if_absent_def)
next
  show "substitution 100
        \<lparr>home_on_court = [1], visitor_on_court = [], cur_period = 1,
         time_on_court = [(1, empty_bank), (2, empty_bank)]\<rparr>
        (ev 1 1 '''' 8 (Some 1) (Some 100) (Some 2) None) 1000 1530
      = Inr \<lparr>home_on_court = [2], visitor_on_court = [], cur_period = 1,
             time_on_court =
               [(1, \<lparr>playing_time = 530, time_in = None, time_in_list = [1530],
                     time_out_list = [1000], period_list = [1]\<rparr>),
                (2, \<lparr>playing_time = 0, time_in = Some 1000, time_in_list = [1000],
                     time_out_list = [], period_list = []\<rparr>)]\<rparr>"
    by code_simp
qed


theorem C5_substitution_event_witness:
  "eventmsgtype (ev 1 3 ''6:40'' 8 (Some 1) (Some 100) (Some 2) None) = 8
   \<and> play_clock_to_seconds (pctimestring (ev 1 3 ''6:40'' 8 (Some 1) (Some 100) (Some 2) None))
        (period (ev 1 3 ''6:40'' 8 (Some 1) (Some 100) (Some 2) None)) = Inr (1000, 1200)
   \<and> (\<exists>st'. step [1, 2] [] 100
               \<lparr>home_on_court = [1], visitor_on_court = [], cur_period = 3,
                time_on_court = [(1, empty_bank), (2, empty_bank)]\<rparr>
               (ev 1 3 ''6:40'' 8 (Some 1) (Some 100) (Some 2) None) = Inr st'
          \<and> home_on_court st' = [2]
          \<and> map_of (time_on_court st') 1 =
              Some \<lparr>playing_time = 200, time_in = None, time_in_list = [1200],
                    time_out_list = [1000], period_list = [3]\<rparr>
          \<and> map_of (time_on_court st') 2 =
              Some \<lparr>playing_time = 0, time_in = Some 1000, time_in_list = [1000],
                    time_out_list = [], period_list = []\<rparr>)"
proof -
  let ?row = "ev 1 3 ''6:40'' 8 (Some 1) (Some 100) (Some 2) None"
  let ?st = "\<lparr>home_on_court = [1], visitor_on_court = [], cur_period = 3,
                time_on_court = [(1, empty_bank), (2, empty_bank)]\<rparr>"
  have ty: "eventmsgtype ?row = 8" by (simp add: ev_def)
  have clock: "play_clock_to_seconds (pctimestring ?row) (period ?row) = Inr (1000, 1200)"
    by code_simp
  have p: "player1_id ?row = Some 1" "player2_id ?row = Some 2"
    "player1_team_id ?row = Some 100"
    by (simp_all add: ev_def)
  have b: "map_of (time_on_court ?st) 1 = Some empty_bank"
    "map_of (time_on_court ?st) 2 = Some empty_bank"
    by simp_all
  from C5_substitution_event [of ?row 1000 1200 1 2 ?st empty_bank empty_bank "[1, 2]" "[]" 100]
    ty clock p(1,2) b
  obtain st' where st': "step [1, 2] [] 100 ?st ?row = Inr st'"
    and court: "(let swap = (\<lambda>on_court. if 2 \<in> set (remove1 1 on_court) then remove1 1 on_court
                                     else remove1 1 on_court @ [2])
            in if player1_team_id ?row = Some 100
               then home_on_court st' = swap (home_on_court ?st)
                    \<and> visitor_on_court st' = visitor_on_court ?st
               else visitor_on_court st' = swap (visitor_on_court ?st)
                    \<and> home_on_court st' = home_on_court ?st)"
    and bank: "(let out = \<lparr>playing_time = playing_time empty_bank
                          + (case time_in empty_bank of None \<Rightarrow> 1200 - 1000 | Some s \<Rightarrow> s - 1000),
                        time_in = None,
                        time_in_list = (case time_in empty_bank of
                                          None \<Rightarrow> time_in_list empty_bank @ [1200]
                                        | Some s \<Rightarrow> time_in_list empty_bank),
                        time_out_list = time_out_list empty_bank @ [1000],
                        period_list = period_list empty_bank @ [cur_period ?st]\<rparr>;
                 inc = (if (2::int) = 1 then out else empty_bank)
             in map_of (time_on_court st') =
                  (map_of (time_on_court ?st))
                    (1 \<mapsto> out,
                     2 \<mapsto> inc\<lparr>time_in := Some 1000, time_in_list := time_in_list inc @ [1000]\<rparr>))"
    by blast
  from court p(3) have "home_on_court st' = [2]" by simp
  moreover from bank have "map_of (time_on_court st') 1 =
              Some \<lparr>playing_time = 200, time_in = None, time_in_list = [1200],
                    time_out_list = [1000], period_list = [3]\<rparr>"
    by (simp add: empty_bank_def Let_def)
  moreover from bank have "map_of (time_on_court st') 2 =
              Some \<lparr>playing_time = 0, time_in = Some 1000, time_in_list = [1000],
                    time_out_list = [], period_list = []\<rparr>"
    by (simp add: empty_bank_def Let_def)
  ultimately show ?thesis using ty clock st' by blast
qed

section \<open>State machine: how a run changes the time bank\<close>

lemma banks_rel_refl:
  "reflp R \<Longrightarrow> banks_rel R toc toc"
  by (auto simp: banks_rel_def reflp_def intro: option.rel_refl)

lemma banks_rel_trans:
  assumes "transp R" and "banks_rel R a b" and "banks_rel R b c"
  shows "banks_rel R a c"
  unfolding banks_rel_def
proof
  fix p
  from assms(2,3) have "rel_option R (map_of a p) (map_of b p)"
    and "rel_option R (map_of b p) (map_of c p)"
    by (simp_all add: banks_rel_def)
  with assms(1) show "rel_option R (map_of a p) (map_of c p)"
    by (cases "map_of a p"; cases "map_of b p"; cases "map_of c p") (auto dest: transpD)
qed

lemma banks_rel_update:
  assumes "reflp R" and "map_of toc p = Some b" and "R b b'"
  shows "banks_rel R toc (AList.update p b' toc)"
  using assms
  by (auto simp: banks_rel_def update_conv' reflp_def intro: option.rel_refl)

lemma banks_rel_mono:
  assumes "banks_rel R a b" and "\<And>x y. R x y \<Longrightarrow> S x y"
  shows "banks_rel S a b"
  unfolding banks_rel_def
proof
  fix p
  from assms(1) have "rel_option R (map_of a p) (map_of b p)" by (simp add: banks_rel_def)
  then show "rel_option S (map_of a p) (map_of b p)"
    by (cases "map_of a p"; cases "map_of b p") (auto intro: assms(2))
qed

lemma bank_steps_refl: "reflp (bank_step t m per)\<^sup>*\<^sup>*"
  by (simp add: reflp_def)

lemma bank_steps_trans: "transp (bank_step t m per)\<^sup>*\<^sup>*"
  by (auto simp: transp_def)

lemma banks_rel_steps_update:
  assumes "map_of toc p = Some b" and "bank_step t m per b b'"
  shows "banks_rel (bank_step t m per)\<^sup>*\<^sup>* toc (AList.update p b' toc)"
proof -
  have "(bank_step t m per)\<^sup>*\<^sup>* b b'" using assms(2) by blast
  with bank_steps_refl assms(1) show ?thesis by (rule banks_rel_update)
qed

lemma substitution_banks:
  assumes "substitution home_id st row t m = Inr st'"
  shows "banks_rel (bank_step t m (cur_period st))\<^sup>*\<^sup>* (time_on_court st) (time_on_court st')"
proof -
  from assms obtain p1 p2 b1 b2 where
    b1: "map_of (time_on_court st) p1 = Some b1"
    and b2: "map_of (AList.update p1 (check_out t m (cur_period st) b1) (time_on_court st)) p2
              = Some b2"
    and toc: "time_on_court st' =
       AList.update p2 (check_in t b2)
         (AList.update p1 (check_out t m (cur_period st) b1) (time_on_court st))"
    by (auto simp: substitution_def Let_def split: option.splits if_splits)
  have "banks_rel (bank_step t m (cur_period st))\<^sup>*\<^sup>* (time_on_court st)
          (AList.update p1 (check_out t m (cur_period st) b1) (time_on_court st))"
    using b1 by (rule banks_rel_steps_update) (rule bank_step.checked_out)
  moreover have "banks_rel (bank_step t m (cur_period st))\<^sup>*\<^sup>*
          (AList.update p1 (check_out t m (cur_period st) b1) (time_on_court st))
          (time_on_court st')"
    unfolding toc using b2 by (rule banks_rel_steps_update) (rule bank_step.checked_in)
  ultimately show ?thesis
    using bank_steps_trans banks_rel_trans by blast
qed

lemma close_all_banks:
  "close_all t per ps toc = Inr toc' \<Longrightarrow> banks_rel (bank_step t m per)\<^sup>*\<^sup>* toc toc'"
proof (induction ps arbitrary: toc)
  case Nil
  then show ?case by (simp add: banks_rel_refl bank_steps_refl)
next
  case (Cons p ps)
  from Cons.prems obtain b b' where b: "map_of toc p = Some b" "period_close t per b = Inr b'"
    and rest: "close_all t per ps (AList.update p b' toc) = Inr toc'"
    by (auto split: option.splits sum.splits)
  have "banks_rel (bank_step t m per)\<^sup>*\<^sup>* toc (AList.update p b' toc)"
    using b(1) by (rule banks_rel_steps_update) (rule bank_step.closed [OF b(2)])
  with Cons.IH [OF rest] show ?case
    using bank_steps_trans banks_rel_trans by blast
qed

lemma period_end_banks:
  assumes "period_end st t = Inr st'"
  shows "banks_rel (bank_step t m (cur_period st))\<^sup>*\<^sup>* (time_on_court st) (time_on_court st')"
  using assms by (auto simp: period_end_def split: sum.splits dest: close_all_banks)

lemma discover_banks:
  assumes "discover hr vr m st pid = Inr st'"
  shows "banks_rel (bank_step t m per)\<^sup>*\<^sup>* (time_on_court st) (time_on_court st')
         \<and> cur_period st' = cur_period st"
  using assms
  by (auto simp: discover_def banks_rel_refl bank_steps_refl
        split: option.splits if_splits
        intro!: banks_rel_steps_update bank_step.discovered)

lemma discover_all_banks:
  "discover_all hr vr m st pids = Inr st' \<Longrightarrow>
   banks_rel (bank_step t m per)\<^sup>*\<^sup>* (time_on_court st) (time_on_court st')
   \<and> cur_period st' = cur_period st"
proof (induction pids arbitrary: st)
  case Nil
  then show ?case by (simp add: banks_rel_refl bank_steps_refl)
next
  case (Cons pid pids)
  from Cons.prems obtain st1 where d: "discover hr vr m st pid = Inr st1"
    and rest: "discover_all hr vr m st1 pids = Inr st'"
    by (auto split: sum.splits)
  from discover_banks [OF d, of t per] Cons.IH [OF rest] show ?case
    using bank_steps_trans banks_rel_trans by (metis (no_types, lifting))
qed

lemma generic_play_banks:
  assumes "generic_play hr vr st row m = Inr st'"
  shows "banks_rel (bank_step t m per)\<^sup>*\<^sup>* (time_on_court st) (time_on_court st')
         \<and> cur_period st' = cur_period st"
  using assms unfolding generic_play_def by (rule discover_all_banks)

lemma substitution_cur_period:
  "substitution home_id st row t m = Inr st' \<Longrightarrow> cur_period st' = cur_period st"
  by (auto simp: substitution_def Let_def split: option.splits if_splits)

lemma period_end_cur_period:
  "period_end st t = Inr st' \<Longrightarrow> cur_period st' = cur_period st + 1"
  by (auto simp: period_end_def split: sum.splits)

lemma step_cases:
  assumes "step hr vr h st row = Inr st'"
  obtains (sub) t m where "play_clock_to_seconds (pctimestring row) (period row) = Inr (t, m)"
      "eventmsgtype row = 8" "substitution h st row t m = Inr st'"
  | (period_end) t m where "play_clock_to_seconds (pctimestring row) (period row) = Inr (t, m)"
      "eventmsgtype row = 13" "period_end st t = Inr st'"
  | (play) t m where "play_clock_to_seconds (pctimestring row) (period row) = Inr (t, m)"
      "eventmsgtype row \<noteq> 8" "eventmsgtype row \<noteq> 13" "eventmsgtype row \<le> 5"
      "generic_play hr vr st row m = Inr st'"
  | (other) t m where "play_clock_to_seconds (pctimestring row) (period row) = Inr (t, m)"
      "eventmsgtype row \<noteq> 8" "eventmsgtype row \<noteq> 13" "\<not> eventmsgtype row \<le> 5" "st' = st"
  using assms
  by (cases "play_clock_to_seconds (pctimestring row) (period row)")
     (auto simp: step_def split: if_splits)

lemma step_cur_period:
  assumes "step hr vr h st row = Inr st'"
  shows "cur_period st' = cur_period st + (if eventmsgtype row = 13 then 1 else 0)"
  using assms
proof (cases rule: step_cases)
  case (play t m)
  then show ?thesis using generic_play_banks [of hr vr st row m st'] by simp
qed (simp_all add: substitution_cur_period period_end_cur_period)

lemma step_banks:
  assumes "step hr vr h st row = Inr st'"
    and "play_clock_to_seconds (pctimestring row) (period row) = Inr (t, m)"
  shows "banks_rel (bank_step t m (cur_period st))\<^sup>*\<^sup>* (time_on_court st) (time_on_court st')"
  using assms(1)
proof (cases rule: step_cases)
  case (sub t' m')
  with assms(2) show ?thesis using substitution_banks by simp
next
  case (period_end t' m')
  with assms(2) show ?thesis using period_end_banks by simp
next
  case (play t' m')
  with assms(2) have "generic_play hr vr st row m = Inr st'" by simp
  then show ?thesis using generic_play_banks [of hr vr st row m st' t "cur_period st"] by simp
next
  case (other t' m')
  then show ?thesis by (simp add: banks_rel_refl bank_steps_refl)
qed

lemma step_clock:
  assumes "step hr vr h st row = Inr st'"
  shows "\<exists>t m. play_clock_to_seconds (pctimestring row) (period row) = Inr (t, m)"
  using assms by (auto simp: step_def split: sum.splits)


lemma run_events_snoc:
  "run_events hr vr h st (rows @ [row]) =
     (case run_events hr vr h st rows of
        Inl e \<Rightarrow> Inl e
      | Inr st1 \<Rightarrow> step hr vr h st1 row)"
  by (induction rows arbitrary: st) (auto split: sum.splits)

lemma period_ends_simps:
  "period_ends [] = 0"
  "period_ends (rows @ [row]) = period_ends rows + (if eventmsgtype row = 13 then 1 else 0)"
  by (simp_all add: period_ends_def)

lemma run_events_cur_period:
  "run_events hr vr h st rows = Inr st' \<Longrightarrow> cur_period st' = cur_period st + period_ends rows"
proof (induction rows arbitrary: st' rule: rev_induct)
  case Nil
  then show ?case by (simp add: period_ends_simps)
next
  case (snoc row rows)
  from snoc.prems obtain st1 where r: "run_events hr vr h st rows = Inr st1"
    and s: "step hr vr h st1 row = Inr st'"
    by (auto simp: run_events_snoc split: sum.splits)
  from snoc.IH [OF r] step_cur_period [OF s] show ?case
    by (simp add: period_ends_simps)
qed

lemma run_events_banks:
  assumes run: "run_events hr vr h st rows = Inr st'"
    and init: "\<And>p b. map_of (time_on_court st) p = Some b \<Longrightarrow> I [] b"
    and pres: "\<And>pre row post t m b b'.
       rows = pre @ row # post \<Longrightarrow>
       play_clock_to_seconds (pctimestring row) (period row) = Inr (t, m) \<Longrightarrow>
       I pre b \<Longrightarrow> (bank_step t m (cur_period st + period_ends pre))\<^sup>*\<^sup>* b b' \<Longrightarrow>
       I (pre @ [row]) b'"
  shows "map_of (time_on_court st') p = Some b \<Longrightarrow> I rows b"
  using run pres
proof (induction rows arbitrary: st' p b rule: rev_induct)
  case Nil
  then show ?case using init by simp
next
  case (snoc row rows)
  from snoc.prems(2) obtain st1 where r: "run_events hr vr h st rows = Inr st1"
    and s: "step hr vr h st1 row = Inr st'"
    by (auto simp: run_events_snoc split: sum.splits)
  from step_clock [OF s] obtain t m where
    c: "play_clock_to_seconds (pctimestring row) (period row) = Inr (t, m)" by blast
  have per: "cur_period st1 = cur_period st + period_ends rows"
    using r by (rule run_events_cur_period)
  from step_banks [OF s c] snoc.prems(1) obtain b0 where
    b0: "map_of (time_on_court st1) p = Some b0"
    and mv: "(bank_step t m (cur_period st1))\<^sup>*\<^sup>* b0 b"
    unfolding banks_rel_def by (metis option.rel_cases option.inject option.distinct(1))
  have "I rows b0"
  proof (rule snoc.IH [OF b0 r])
    fix pre row' post t m b b'
    assume "rows = pre @ row' # post"
    then have "rows @ [row] = pre @ row' # (post @ [row])" by simp
    moreover assume "play_clock_to_seconds (pctimestring row') (period row') = Inr (t, m)"
      "I pre b" "(bank_step t m (cur_period st + period_ends pre))\<^sup>*\<^sup>* b b'"
    ultimately show "I (pre @ [row']) b'" by (rule snoc.prems(3))
  qed
  moreover have "rows @ [row] = rows @ row # []" by simp
  ultimately show ?case using c mv per snoc.prems(3) by metis
qed

lemma run_events_keys:
  assumes "run_events hr vr h st rows = Inr st'"
  shows "fst ` set (time_on_court st') = fst ` set (time_on_court st)"
  using assms
proof (induction rows arbitrary: st)
  case Nil
  then show ?case by simp
next
  case (Cons row rows)
  from Cons.prems obtain st1 where s: "step hr vr h st row = Inr st1"
    and r: "run_events hr vr h st1 rows = Inr st'"
    by (auto split: sum.splits)
  from step_clock [OF s] obtain t m where
    c: "play_clock_to_seconds (pctimestring row) (period row) = Inr (t, m)" by blast
  have "dom (map_of (time_on_court st1)) = dom (map_of (time_on_court st))"
    using step_banks [OF s c] unfolding banks_rel_def
    by (auto simp: dom_def) (metis option.rel_distinct option.exhaust)+
  then have "fst ` set (time_on_court st1) = fst ` set (time_on_court st)"
    by (simp add: dom_map_of_conv_image_fst)
  with Cons.IH [OF r] show ?case by simp
qed

section \<open>State machine: the period history\<close>

lemma bank_step_period_list:
  assumes "bank_step t m per b b'"
  shows "period_list b' = period_list b \<or> period_list b' = period_list b @ [per]"
  using assms
  by cases (auto simp: check_out_def check_in_def period_close_def split: option.splits)

lemma bank_steps_period_list:
  assumes "(bank_step t m per)\<^sup>*\<^sup>* b b'"
  shows "\<exists>xs. period_list b' = period_list b @ xs \<and> set xs \<subseteq> {per}"
  using assms
proof (induction rule: rtranclp_induct)
  case base
  then show ?case by simp
next
  case (step y z)
  then obtain xs where xs: "period_list y = period_list b @ xs" "set xs \<subseteq> {per}" by blast
  from bank_step_period_list [OF step.hyps(2)] show ?case
  proof
    assume "period_list z = period_list y"
    with xs show ?thesis by auto
  next
    assume "period_list z = period_list y @ [per]"
    with xs have "period_list z = period_list b @ (xs @ [per])" "set (xs @ [per]) \<subseteq> {per}"
      by auto
    then show ?thesis by blast
  qed
qed

lemma substitution_outgoing_period_list:
  assumes "substitution home_id st row t m = Inr st'"
    and "player1_id row = Some p" and "map_of (time_on_court st) p = Some b"
  shows "\<exists>b'. map_of (time_on_court st') p = Some b'
              \<and> period_list b' = period_list b @ [cur_period st]"
  using assms
  by (auto simp: substitution_def Let_def update_conv' check_in_def check_out_def
        split: option.splits if_splits)

lemma close_all_absent:
  "close_all t per ps toc = Inr toc' \<Longrightarrow> p \<notin> set ps \<Longrightarrow> map_of toc' p = map_of toc p"
  by (induction ps arbitrary: toc) (auto simp: update_conv' split: option.splits sum.splits)

lemma close_all_checked_out:
  "close_all t per ps toc = Inr toc' \<Longrightarrow> map_of toc p = Some b \<Longrightarrow> time_in b = None \<Longrightarrow>
   p \<notin> set ps"
proof (induction ps arbitrary: toc)
  case Nil
  then show ?case by simp
next
  case (Cons q ps)
  from Cons.prems(1) obtain c c' where c: "map_of toc q = Some c" "period_close t per c = Inr c'"
    and rest: "close_all t per ps (AList.update q c' toc) = Inr toc'"
    by (auto split: option.splits sum.splits)
  from c Cons.prems(2,3) have "q \<noteq> p"
    by (auto simp: period_close_def)
  then have "map_of (AList.update q c' toc) p = Some b"
    using Cons.prems(2) by (simp add: update_conv')
  from Cons.IH [OF rest this Cons.prems(3)] \<open>q \<noteq> p\<close> show ?case by simp
qed

lemma close_all_present:
  "close_all t per ps toc = Inr toc' \<Longrightarrow> p \<in> set ps \<Longrightarrow> map_of toc p = Some b \<Longrightarrow>
   \<exists>b'. period_close t per b = Inr b' \<and> map_of toc' p = Some b'"
proof (induction ps arbitrary: toc b)
  case Nil
  then show ?case by simp
next
  case (Cons q ps)
  from Cons.prems(1) obtain c c' where c: "map_of toc q = Some c" "period_close t per c = Inr c'"
    and rest: "close_all t per ps (AList.update q c' toc) = Inr toc'"
    by (auto split: option.splits sum.splits)
  show ?case
  proof (cases "q = p")
    case True
    with c Cons.prems(3) have bc: "c = b" by simp
    have upd: "map_of (AList.update q c' toc) p = Some c'"
      using True by (simp add: update_conv')
    have "time_in c' = None"
      using c(2) by (auto simp: period_close_def split: option.splits)
    with close_all_checked_out [OF rest upd] have "p \<notin> set ps" by simp
    with close_all_absent [OF rest] upd have "map_of toc' p = Some c'" by simp
    with c(2) bc show ?thesis by simp
  next
    case False
    with Cons.prems(2) have "p \<in> set ps" by simp
    moreover have "map_of (AList.update q c' toc) p = Some b"
      using False Cons.prems(3) by (simp add: update_conv')
    ultimately show ?thesis using Cons.IH [OF rest] by blast
  qed
qed

lemma period_end_on_court_period_list:
  assumes "period_end st t = Inr st'"
    and "p \<in> set (home_on_court st @ visitor_on_court st)"
    and "map_of (time_on_court st) p = Some b"
  shows "\<exists>b'. map_of (time_on_court st') p = Some b'
              \<and> period_list b' = period_list b @ [cur_period st]"
proof -
  from assms(1) obtain toc' where
    c: "close_all t (cur_period st) (home_on_court st @ visitor_on_court st) (time_on_court st)
          = Inr toc'"
    and "time_on_court st' = toc'"
    by (auto simp: period_end_def split: sum.splits)
  with close_all_present [OF c assms(2,3)] show ?thesis
    by (auto simp: period_close_def split: option.splits)
qed

text \<open>
  Claim C10. When the loop reaches an event after consuming the rows \<open>pre\<close>, its period
  counter is 1 plus the number of period-end events in \<open>pre\<close>; the event appends to a
  player's period history nothing but that counter (exactly once for the outgoing player of a
  substitution and for every on-court player at a period end). The event's own period field
  plays no part: when it is larger than 1 and \<open>pre\<close> does not hold exactly that many minus
  one period ends, the value recorded differs from it.
\<close>

theorem C10_period_history_uses_counter:
  assumes "run_events home_roster visitor_roster home_id
             (init_state home_roster visitor_roster) pre = Inr st"
    and "step home_roster visitor_roster home_id st row = Inr st'"
    and "map_of (time_on_court st) p = Some b"
  shows "cur_period st = 1 + period_ends pre
    \<and> cur_period st' = 1 + period_ends (pre @ [row])
    \<and> (\<exists>b' xs. map_of (time_on_court st') p = Some b'
          \<and> period_list b' = period_list b @ xs
          \<and> set xs \<subseteq> {1 + period_ends pre}
          \<and> (eventmsgtype row = 8 \<and> player1_id row = Some p \<longrightarrow> xs = [1 + period_ends pre])
          \<and> (eventmsgtype row = 13 \<and> p \<in> set (home_on_court st @ visitor_on_court st)
               \<longrightarrow> xs = [1 + period_ends pre])
          \<and> (1 < period row \<and> period_ends pre \<noteq> period row - 1 \<longrightarrow> period row \<notin> set xs))"
proof -
  have per: "cur_period st = 1 + period_ends pre"
    using run_events_cur_period [OF assms(1)] by (simp add: init_state_def)
  have per': "cur_period st' = 1 + period_ends (pre @ [row])"
    using step_cur_period [OF assms(2)] per by (simp add: period_ends_simps)
  from step_clock [OF assms(2)] obtain t m where
    c: "play_clock_to_seconds (pctimestring row) (period row) = Inr (t, m)" by blast
  from step_banks [OF assms(2) c] assms(3) obtain b' where
    b': "map_of (time_on_court st') p = Some b'"
    and mv: "(bank_step t m (cur_period st))\<^sup>*\<^sup>* b b'"
    unfolding banks_rel_def by (metis option.rel_cases option.inject option.distinct(1))
  from bank_steps_period_list [OF mv] obtain xs where
    xs: "period_list b' = period_list b @ xs" "set xs \<subseteq> {cur_period st}" by blast
  have sub: "xs = [cur_period st]" if "eventmsgtype row = 8" "player1_id row = Some p"
  proof -
    from assms(2) that(1) c have "substitution home_id st row t m = Inr st'"
      by (simp add: step_def)
    from substitution_outgoing_period_list [OF this that(2) assms(3)] b' xs(1)
    show ?thesis by simp
  qed
  have pe: "xs = [cur_period st]"
    if "eventmsgtype row = 13" "p \<in> set (home_on_court st @ visitor_on_court st)"
  proof -
    from assms(2) that(1) c have "period_end st t = Inr st'"
      by (simp add: step_def)
    from period_end_on_court_period_list [OF this that(2) assms(3)] b' xs(1)
    show ?thesis by simp
  qed
  have "period row \<notin> set xs" if "1 < period row" "period_ends pre \<noteq> period row - 1"
    using xs(2) per that by auto
  with per per' b' xs sub pe show ?thesis by auto
qed


theorem C10_period_history_uses_counter_witness:
  "run_events [1, 2] [] 100 (init_state [1, 2] []) [] = Inr (init_state [1, 2] [])
   \<and> map_of (time_on_court (init_state [1, 2] [])) 1 = Some empty_bank
   \<and> period (ev 1 3 ''6:40'' 8 (Some 1) (Some 100) (Some 2) None) = 3
   \<and> (\<exists>st' b'. step [1, 2] [] 100 (init_state [1, 2] [])
                   (ev 1 3 ''6:40'' 8 (Some 1) (Some 100) (Some 2) None) = Inr st'
          \<and> map_of (time_on_court st') 1 = Some b'
          \<and> period_list b' = [1])
   \<and> eventmsgtype (ev 2 2 ''0:00'' 13 None None None None) = 13
   \<and> period (ev 2 2 ''0:00'' 13 None None None None) = 2
   \<and> (\<exists>st b st' b'.
          run_events [1, 2] [] 100 (init_state [1, 2] [])
            [ev 1 1 ''9:00'' 1 (Some 1) (Some 100) None None] = Inr st
          \<and> map_of (time_on_court st) 1 = Some b
          \<and> 1 \<in> set (home_on_court st @ visitor_on_court st)
          \<and> step [1, 2] [] 100 st (ev 2 2 ''0:00'' 13 None None None None) = Inr st'
          \<and> map_of (time_on_court st') 1 = Some b'
          \<and> period_list b' = period_list b @ [1])"
proof -
  let ?row = "ev 1 3 ''6:40'' 8 (Some 1) (Some 100) (Some 2) None"
  have run: "run_events [1, 2] [] 100 (init_state [1, 2] []) [] = Inr (init_state [1, 2] [])"
    by simp
  have bank: "map_of (time_on_court (init_state [1, 2] [])) 1 = Some empty_bank"
    by code_simp
  have row: "period ?row = 3" "eventmsgtype ?row = 8" "player1_id ?row = Some 1"
    by (simp_all add: ev_def)
  have "(case step [1, 2] [] 100 (init_state [1, 2] []) ?row of
           Inl e \<Rightarrow> False | Inr st' \<Rightarrow> True)"
    by code_simp
  then obtain st' where stp: "step [1, 2] [] 100 (init_state [1, 2] []) ?row = Inr st'"
    by (cases "step [1, 2] [] 100 (init_state [1, 2] []) ?row") auto
  from C10_period_history_uses_counter [OF run stp bank] row
  obtain b' where "map_of (time_on_court st') 1 = Some b'" "period_list b' = [1]"
    by (auto simp: period_ends_simps empty_bank_def)
  with stp have first: "\<exists>st' b'. step [1, 2] [] 100 (init_state [1, 2] []) ?row = Inr st'
          \<and> map_of (time_on_court st') 1 = Some b' \<and> period_list b' = [1]"
    by blast
  let ?play = "ev 1 1 ''9:00'' 1 (Some 1) (Some 100) None None"
  let ?end = "ev 2 2 ''0:00'' 13 None None None None"
  let ?st = "\<lparr>home_on_court = [1], visitor_on_court = [], cur_period = 1,
               time_on_court =
                 [(1, \<lparr>playing_time = 0, time_in = Some 2400, time_in_list = [2400],
                       time_out_list = [], period_list = []\<rparr>),
                  (2, empty_bank)]\<rparr>"
  let ?b = "\<lparr>playing_time = 0, time_in = Some 2400, time_in_list = [2400],
              time_out_list = [], period_list = []\<rparr>"
  have run2: "run_events [1, 2] [] 100 (init_state [1, 2] []) [?play] = Inr ?st"
    by code_simp
  have bank2: "map_of (time_on_court ?st) 1 = Some ?b" by simp
  have court: "1 \<in> set (home_on_court ?st @ visitor_on_court ?st)" by simp
  have endrow: "eventmsgtype ?end = 13" "period ?end = 2" by (simp_all add: ev_def)
  have "(case step [1, 2] [] 100 ?st ?end of Inl e \<Rightarrow> False | Inr st' \<Rightarrow> True)"
    by code_simp
  then obtain st2 where stp2: "step [1, 2] [] 100 ?st ?end = Inr st2"
    by (cases "step [1, 2] [] 100 ?st ?end") auto
  from C10_period_history_uses_counter [OF run2 stp2 bank2] endrow(1) court
  obtain b2 where "map_of (time_on_court st2) 1 = Some b2" "period_list b2 = period_list ?b @ [1]"
    by (auto simp: period_ends_def ev_def)
  with run2 bank2 court stp2 have second: "\<exists>st b st' b'.
          run_events [1, 2] [] 100 (init_state [1, 2] []) [?play] = Inr st
          \<and> map_of (time_on_court st) 1 = Some b
          \<and> 1 \<in> set (home_on_court st @ visitor_on_court st)
          \<and> step [1, 2] [] 100 st ?end = Inr st'
          \<and> map_of (time_on_court st') 1 = Some b'
          \<and> period_list b' = period_list b @ [1]"
    by blast
  from run bank row(1) first endrow second show ?thesis by blast
qed

section \<open>State machine: participants outside the rosters\<close>

lemma init_time_on_court_keys_aux:
  "fst ` set (fold (\<lambda>player. AList.update player empty_bank) roster toc)
     = set roster \<union> fst ` set toc"
  by (induction roster arbitrary: toc) (auto simp: dom_update)

lemma init_state_keys:
  "fst ` set (time_on_court (init_state hr vr)) = set (hr @ vr)"
  using init_time_on_court_keys_aux [of "hr @ vr" "[]"]
  by (simp add: init_state_def init_time_on_court_def)

lemma substitution_unknown:
  assumes "player1_id row \<notin> Some ` fst ` set (time_on_court st)
           \<or> player2_id row \<notin> Some ` fst ` set (time_on_court st)"
  shows "substitution home_id st row t m = Inl KeyError"
proof (cases "player1_id row")
  case None
  then show ?thesis by (simp add: substitution_def)
next
  case p1: (Some p1)
  show ?thesis
  proof (cases "map_of (time_on_court st) p1")
    case None
    with p1 show ?thesis by (simp add: substitution_def)
  next
    case b1: (Some b1)
    then have in1: "p1 \<in> fst ` set (time_on_court st)"
      using map_of_eq_None_iff [of "time_on_court st" p1] by auto
    with assms p1 have not2: "player2_id row \<notin> Some ` fst ` set (time_on_court st)" by auto
    show ?thesis
    proof (cases "player2_id row")
      case None
      with p1 b1 show ?thesis by (simp add: substitution_def Let_def)
    next
      case p2: (Some p2)
      with not2 have "p2 \<notin> fst ` set (time_on_court st)" by auto
      with in1 have "p2 \<noteq> p1" and "map_of (time_on_court st) p2 = None"
        by (auto simp: map_of_eq_None_iff)
      with p1 b1 p2 show ?thesis
        by (simp add: substitution_def Let_def update_conv')
    qed
  qed
qed

lemma step_substitution_unknown:
  assumes "eventmsgtype row = 8"
    and "player1_id row \<notin> Some ` fst ` set (time_on_court st)
         \<or> player2_id row \<notin> Some ` fst ` set (time_on_court st)"
  shows "\<exists>e. step hr vr h st row = Inl e"
  using assms substitution_unknown [OF assms(2)]
  by (cases "play_clock_to_seconds (pctimestring row) (period row)")
     (auto simp: step_def)

lemma run_events_substitution_unknown:
  assumes "row \<in> set rows" and "eventmsgtype row = 8"
    and "player1_id row \<notin> Some ` fst ` set (time_on_court st)
         \<or> player2_id row \<notin> Some ` fst ` set (time_on_court st)"
  shows "\<exists>e. run_events hr vr h st rows = Inl e"
proof (rule ccontr)
  assume "\<nexists>e. run_events hr vr h st rows = Inl e"
  then obtain st' where run: "run_events hr vr h st rows = Inr st'"
    by (cases "run_events hr vr h st rows") auto
  from assms(1) obtain pre post where rows: "rows = pre @ row # post"
    by (auto simp: in_set_conv_decomp)
  have app: "\<And>xs ys s. run_events hr vr h s (xs @ ys) =
      (case run_events hr vr h s xs of Inl e \<Rightarrow> Inl e | Inr s1 \<Rightarrow> run_events hr vr h s1 ys)"
  proof -
    fix xs ys s
    show "run_events hr vr h s (xs @ ys) =
      (case run_events hr vr h s xs of Inl e \<Rightarrow> Inl e | Inr s1 \<Rightarrow> run_events hr vr h s1 ys)"
      by (induction xs arbitrary: s) (auto split: sum.splits)
  qed
  from run rows obtain st1 where pre: "run_events hr vr h st pre = Inr st1"
    and rest: "run_events hr vr h st1 (row # post) = Inr st'"
    by (auto simp: app split: sum.splits)
  from run_events_keys [OF pre] assms(3)
  have "player1_id row \<notin> Some ` fst ` set (time_on_court st1)
         \<or> player2_id row \<notin> Some ` fst ` set (time_on_court st1)" by simp
  from step_substitution_unknown [OF assms(2) this, of hr vr h] rest show False
    by (auto split: sum.splits)
qed

lemma add_game_time_remaining_rows:
  "add_game_time_remaining pbp = Inr timed \<Longrightarrow> row \<in> set pbp \<Longrightarrow>
   \<exists>row' \<in> set timed. eventmsgtype row' = eventmsgtype row
      \<and> player1_id row' = player1_id row \<and> player2_id row' = player2_id row"
proof (induction pbp arbitrary: timed)
  case Nil
  then show ?case by simp
next
  case (Cons e es)
  from Cons.prems(1) obtain t m ts where
    c: "play_clock_to_seconds (pctimestring e) (period e) = Inr (t, m)"
    and ts: "add_game_time_remaining es = Inr ts"
    and timed: "timed = \<lparr>game_id = game_id e, eventnum = eventnum e, period = period e,
                     pctimestring = pctimestring e, eventmsgtype = eventmsgtype e,
                     player1_id = player1_id e, player1_team_id = player1_team_id e,
                     player2_id = player2_id e, player3_id = player3_id e,
                     game_time_remaining = t\<rparr> # ts"
    by (auto split: sum.splits prod.splits)
  show ?case
  proof (cases "row = e")
    case True
    then show ?thesis unfolding timed by simp
  next
    case False
    with Cons.prems(2) have "row \<in> set es" by simp
    from Cons.IH [OF ts this] show ?thesis unfolding timed by auto
  qed
qed

lemma discover_unknown:
  "p \<notin> set (hr @ vr) \<Longrightarrow> discover hr vr m st (Some p) = Inr st"
  by (simp add: discover_def)

text \<open>
  Claim C6, as amended. When a substitution event of the log names an outgoing or incoming
  player who is null or on neither roster, \<^verbatim>\<open>process_pbp_data\<close> fails; the loop body
  raises \<open>KeyError\<close> at a substitution whose outgoing or incoming player is no key of the
  time bank. A participant of a play (category at most 5) who is on neither roster is skipped
  and leaves the state as it was; an event of any other category leaves the state as it was
  whatever its participants.
\<close>

theorem C6_unknown_participant:
  "(row \<in> set pbp_df \<longrightarrow> eventmsgtype row = 8 \<longrightarrow>
      (player1_id row \<notin> Some ` set (home_roster @ visitor_roster)
       \<or> player2_id row \<notin> Some ` set (home_roster @ visitor_roster)) \<longrightarrow>
      (\<exists>e. process_pbp_data pbp_df home_roster visitor_roster home_id visitor_id = Inl e))
   \<and> (eventmsgtype sub = 8 \<longrightarrow>
        play_clock_to_seconds (pctimestring sub) (period sub) = Inr (t, max_period_time) \<longrightarrow>
        (player1_id sub \<notin> Some ` fst ` set (time_on_court st)
         \<or> player2_id sub \<notin> Some ` fst ` set (time_on_court st)) \<longrightarrow>
        step home_roster visitor_roster home_id st sub = Inl KeyError)
   \<and> (p \<notin> set (home_roster @ visitor_roster) \<longrightarrow>
        discover home_roster visitor_roster max_period_time st (Some p) = Inr st)
   \<and> (eventmsgtype other \<noteq> 8 \<longrightarrow> eventmsgtype other \<noteq> 13 \<longrightarrow>
        \<not> eventmsgtype other \<le> 5 \<longrightarrow>
        play_clock_to_seconds (pctimestring other) (period other) = Inr (t', max_period_time') \<longrightarrow>
        step home_roster visitor_roster home_id st other = Inr st)"
proof (intro conjI impI)
  assume row: "row \<in> set pbp_df" "eventmsgtype row = 8"
    and unknown: "player1_id row \<notin> Some ` set (home_roster @ visitor_roster)
       \<or> player2_id row \<notin> Some ` set (home_roster @ visitor_roster)"
  show "\<exists>e. process_pbp_data pbp_df home_roster visitor_roster home_id visitor_id = Inl e"
  proof (cases "add_game_time_remaining pbp_df")
    case (Inl e)
    then show ?thesis by (simp add: process_pbp_data_def)
  next
    case (Inr timed)
    from add_game_time_remaining_rows [OF Inr row(1)] obtain row' where
      r: "row' \<in> set (sort_values timed)" "eventmsgtype row' = 8"
        "player1_id row' = player1_id row" "player2_id row' = player2_id row"
      using row(2) by (auto simp: sort_values_def)
    have "player1_id row'
            \<notin> Some ` fst ` set (time_on_court (init_state home_roster visitor_roster))
          \<or> player2_id row'
            \<notin> Some ` fst ` set (time_on_court (init_state home_roster visitor_roster))"
      using unknown r(3,4) unfolding init_state_keys by simp
    from run_events_substitution_unknown [OF r(1,2) this, of home_roster visitor_roster home_id]
    show ?thesis using Inr by (auto simp: process_pbp_data_def)
  qed
next
  assume "eventmsgtype sub = 8"
    and "play_clock_to_seconds (pctimestring sub) (period sub) = Inr (t, max_period_time)"
    and "player1_id sub \<notin> Some ` fst ` set (time_on_court st)
         \<or> player2_id sub \<notin> Some ` fst ` set (time_on_court st)"
  then show "step home_roster visitor_roster home_id st sub = Inl KeyError"
    by (simp add: step_def substitution_unknown)
next
  assume "p \<notin> set (home_roster @ visitor_roster)"
  then show "discover home_roster visitor_roster max_period_time st (Some p) = Inr st"
    by (rule discover_unknown)
next
  assume "eventmsgtype other \<noteq> 8" "eventmsgtype other \<noteq> 13" "\<not> eventmsgtype other \<le> 5"
    "play_clock_to_seconds (pctimestring other) (period other) = Inr (t', max_period_time')"
  then show "step home_roster visitor_roster home_id st other = Inr st"
    by (simp add: step_def)
qed

text \<open>
  The claim as stated fails: the second play of \<open>unknown_participant_game\<close> names player
  99, who is on neither roster, and both passes complete with a full lineup table.
\<close>

theorem C6_counterexample:
  "player3_id (unknown_participant_game ! 1) = Some 99
   \<and> (99::int) \<notin> set ([1, 2, 3, 4, 5] @ [6, 7, 8, 9, 10])
   \<and> (case process_pbp_data unknown_participant_game [1, 2, 3, 4, 5] [6, 7, 8, 9, 10] 100 200 of
         Inl e \<Rightarrow> False
       | Inr (sub_df, pbp_df) \<Rightarrow>
           (case assign_players_on_court sub_df pbp_df 100 200 of
              Inl e \<Rightarrow> False
            | Inr table \<Rightarrow>
                map home_players table = replicate 5 [1, 2, 3, 4, 5]
                \<and> map visitor_players table = replicate 5 [6, 7, 8, 9, 10]))"
  by code_simp


theorem C6_unknown_participant_witness:
  "ev 1 1 ''9:00'' 8 (Some 99) (Some 100) (Some 2) None
     \<in> set [ev 1 1 ''9:00'' 8 (Some 99) (Some 100) (Some 2) None]
   \<and> eventmsgtype (ev 1 1 ''9:00'' 8 (Some 99) (Some 100) (Some 2) None) = 8
   \<and> player1_id (ev 1 1 ''9:00'' 8 (Some 99) (Some 100) (Some 2) None)
        \<notin> Some ` set ([1, 2] @ [])
   \<and> (\<exists>e. process_pbp_data [ev 1 1 ''9:00'' 8 (Some 99) (Some 100) (Some 2) None]
              [1, 2] [] 100 200 = Inl e)
   \<and> process_pbp_data [ev 1 1 ''9:00'' 8 (Some 99) (Some 100) (Some 2) None]
        [1, 2] [] 100 200 = Inl KeyError
   \<and> play_clock_to_seconds (pctimestring (ev 1 1 ''9:00'' 8 (Some 99) (Some 100) (Some 2) None))
        (period (ev 1 1 ''9:00'' 8 (Some 99) (Some 100) (Some 2) None)) = Inr (2340, 2400)
   \<and> player1_id (ev 1 1 ''9:00'' 8 (Some 99) (Some 100) (Some 2) None)
        \<notin> Some ` fst ` set (time_on_court (init_state [1, 2] []))
   \<and> step [1, 2] [] 100 (init_state [1, 2] [])
        (ev 1 1 ''9:00'' 8 (Some 99) (Some 100) (Some 2) None) = Inl KeyError
   \<and> (99::int) \<notin> set ([1, 2] @ [])
   \<and> discover [1, 2] [] 2400 (init_state [1, 2] []) (Some 99) = Inr (init_state [1, 2] [])
   \<and> eventmsgtype (ev 2 1 ''10:00'' 12 (Some 99) None None None) = 12
   \<and> play_clock_to_seconds (pctimestring (ev 2 1 ''10:00'' 12 (Some 99) None None None))
        (period (ev 2 1 ''10:00'' 12 (Some 99) None None None)) = Inr (2400, 2400)
   \<and> step [1, 2] [] 100 (init_state [1, 2] []) (ev 2 1 ''10:00'' 12 (Some 99) None None None)
        = Inr (init_state [1, 2] [])"
proof -
  let ?row = "ev 1 1 ''9:00'' 8 (Some 99) (Some 100) (Some 2) None"
  let ?other = "ev 2 1 ''10:00'' 12 (Some 99) None None None"
  have mem: "?row \<in> set [?row]" by simp
  have ty: "eventmsgtype ?row = 8" by (simp add: ev_def)
  have unknown: "player1_id ?row \<notin> Some ` set ([1, 2] @ [])" by (simp add: ev_def)
  have exact: "process_pbp_data [?row] [1, 2] [] 100 200 = Inl KeyError" by code_simp
  have clock: "play_clock_to_seconds (pctimestring ?row) (period ?row) = Inr (2340, 2400)"
    by code_simp
  have nokey: "player1_id ?row \<notin> Some ` fst ` set (time_on_court (init_state [1, 2] []))"
    unfolding init_state_keys by (simp add: ev_def)
  have out: "(99::int) \<notin> set ([1, 2] @ [])" by simp
  have oty: "eventmsgtype ?other = 12" by (simp add: ev_def)
  have oclock: "play_clock_to_seconds (pctimestring ?other) (period ?other) = Inr (2400, 2400)"
    by code_simp
  note inst = C6_unknown_participant [of ?row "[?row]" "[1, 2]" "[]" 100 200 ?row 2340 2400
      "init_state [1, 2] []" 99 ?other 2400 2400]
  from inst mem ty unknown
  have fails: "\<exists>e. process_pbp_data [?row] [1, 2] [] 100 200 = Inl e" by blast
  from inst ty clock nokey
  have key: "step [1, 2] [] 100 (init_state [1, 2] []) ?row = Inl KeyError" by blast
  from inst out
  have skip: "discover [1, 2] [] 2400 (init_state [1, 2] []) (Some 99) = Inr (init_state [1, 2] [])"
    by blast
  from inst oty oclock
  have noread: "step [1, 2] [] 100 (init_state [1, 2] []) ?other = Inr (init_state [1, 2] [])"
    by simp
  from mem ty unknown fails exact clock nokey key out skip oty oclock noread
  show ?thesis by blast
qed

section \<open>State machine: intervals and playing time\<close>

lemma zip_longer:
  "length xs = length ys \<Longrightarrow> zip (xs @ zs) ys = zip xs ys"
  by (simp add: zip_append1)

lemma paired_open:
  assumes "paired b" and "time_in b = Some s"
  shows "\<exists>ins. time_in_list b = ins @ [s] \<and> length ins = length (time_out_list b)"
proof -
  from assms have len: "length (time_in_list b) = Suc (length (time_out_list b))"
    and l: "last (time_in_list b) = s"
    by (simp_all add: paired_def)
  then have "time_in_list b \<noteq> []" by auto
  then have "time_in_list b = butlast (time_in_list b) @ [s]"
    using l by (metis append_butlast_last_id)
  moreover have "length (butlast (time_in_list b)) = length (time_out_list b)"
    using len by simp
  ultimately show ?thesis by blast
qed

lemma paired_closed:
  "paired b \<Longrightarrow> time_in b = None \<Longrightarrow> length (time_in_list b) = length (time_out_list b)"
  by (simp add: paired_def)

lemma overfull_step:
  assumes "bank_step t m per b b'" and "overfull b"
  shows "overfull b'"
  using assms
  by cases (auto simp: overfull_def check_out_def check_in_def period_close_def
              split: option.splits)

lemma paired_step:
  assumes "bank_step t m per b b'" and "paired b"
  shows "paired b' \<or> overfull b'"
  using assms
  by cases (auto simp: paired_def overfull_def check_out_def check_in_def period_close_def
              split: option.splits)

lemma intervals_check_in:
  assumes "paired b" and "time_in b = None"
  shows "intervals (check_in s b) = intervals b"
  using paired_closed [OF assms] by (simp add: intervals_def check_in_def zip_longer)

lemma intervals_check_out_closed:
  assumes "paired b" and "time_in b = None"
  shows "intervals (check_out t m per b) = intervals b @ [(m, t)]"
  using paired_closed [OF assms] assms(2) by (simp add: intervals_def check_out_def)

lemma intervals_open:
  assumes "paired b" and "time_in b = Some s"
  shows "intervals (b\<lparr>time_out_list := time_out_list b @ [t]\<rparr>) = intervals b @ [(s, t)]"
proof -
  from paired_open [OF assms] obtain ins where
    ins: "time_in_list b = ins @ [s]" "length ins = length (time_out_list b)" by blast
  then show ?thesis by (simp add: intervals_def zip_longer)
qed

lemma intervals_check_out_open:
  assumes "paired b" and "time_in b = Some s"
  shows "intervals (check_out t m per b) = intervals b @ [(s, t)]"
  using intervals_open [OF assms, of t] assms(2)
  by (simp add: intervals_def check_out_def)

lemma intervals_period_close:
  assumes "paired b" and "period_close t per b = Inr b'"
  shows "\<exists>s. time_in b = Some s \<and> intervals b' = intervals b @ [(s, t)]"
proof -
  from assms(2) obtain s where s: "time_in b = Some s"
    and b': "b' = b\<lparr>playing_time := playing_time b + (s - t), time_in := None,
                   time_out_list := time_out_list b @ [t],
                   period_list := period_list b @ [per]\<rparr>"
    by (auto simp: period_close_def split: option.splits)
  from intervals_open [OF assms(1) s, of t] show ?thesis
    unfolding b' using s by (simp add: intervals_def)
qed

lemma total_step:
  assumes "bank_step t m per b b'" and "paired b" and "interval_total b = playing_time b"
    and "paired b'"
  shows "interval_total b' = playing_time b'"
  using assms(1)
proof cases
  case checked_out
  show ?thesis
  proof (cases "time_in b")
    case None
    from intervals_check_out_closed [OF assms(2) None, of t m per] assms(3) None
    show ?thesis unfolding checked_out by (simp add: interval_total_def check_out_def)
  next
    case (Some s)
    from intervals_check_out_open [OF assms(2) Some, of t m per] assms(3) Some
    show ?thesis unfolding checked_out by (simp add: interval_total_def check_out_def)
  qed
next
  case checked_in
  with assms(2,4) have "time_in b = None"
    by (cases "time_in b") (auto simp: paired_def check_in_def)
  from intervals_check_in [OF assms(2) this, of t] assms(3)
  show ?thesis unfolding checked_in by (simp add: interval_total_def check_in_def)
next
  case discovered
  with assms(2,4) have "time_in b = None"
    by (cases "time_in b") (auto simp: paired_def check_in_def)
  from intervals_check_in [OF assms(2) this, of m] assms(3)
  show ?thesis unfolding discovered by (simp add: interval_total_def check_in_def)
next
  case closed
  from intervals_period_close [OF assms(2) closed] obtain s where
    s: "time_in b = Some s" "intervals b' = intervals b @ [(s, t)]" by blast
  with closed have "playing_time b' = playing_time b + (s - t)"
    by (auto simp: period_close_def)
  with s assms(3) show ?thesis by (simp add: interval_total_def)
qed

lemma balanced_steps:
  assumes "(bank_step t m per)\<^sup>*\<^sup>* b b'"
    and "overfull b \<or> (paired b \<and> interval_total b = playing_time b)"
  shows "overfull b' \<or> (paired b' \<and> interval_total b' = playing_time b')"
  using assms
proof (induction rule: rtranclp_induct)
  case base
  then show ?case by simp
next
  case (step y z)
  from step.IH [OF step.prems] show ?case
  proof
    assume "overfull y"
    with step.hyps(2) show ?thesis by (auto dest: overfull_step)
  next
    assume y: "paired y \<and> interval_total y = playing_time y"
    with paired_step [OF step.hyps(2)] total_step [OF step.hyps(2)] show ?thesis by blast
  qed
qed

lemma fold_update_lookup:
  "map_of (fold (\<lambda>player. AList.update player v) ks toc) p = Some b \<Longrightarrow>
   b = v \<or> map_of toc p = Some b"
proof (induction ks arbitrary: toc)
  case Nil
  then show ?case by simp
next
  case (Cons k ks)
  from Cons.IH [of "AList.update k v toc"] Cons.prems show ?case
    by (auto simp: update_conv' split: if_splits)
qed

lemma init_state_banks:
  assumes "map_of (time_on_court (init_state hr vr)) p = Some b"
  shows "b = empty_bank"
  using assms fold_update_lookup [of empty_bank "hr @ vr" "[]" p b]
  by (simp add: init_state_def init_time_on_court_def)

lemma empty_bank_balanced:
  "paired empty_bank \<and> interval_total empty_bank = playing_time empty_bank"
  by (simp add: paired_def interval_total_def intervals_def empty_bank_def)

lemma run_events_balanced:
  assumes "run_events hr vr h (init_state hr vr) rows = Inr st"
    and "map_of (time_on_court st) p = Some b"
  shows "overfull b \<or> (paired b \<and> interval_total b = playing_time b)"
proof (rule run_events_banks
    [where I = "\<lambda>_ c. overfull c \<or> (paired c \<and> interval_total c = playing_time c)",
     OF assms(1) _ _ assms(2)])
  fix q c
  assume "map_of (time_on_court (init_state hr vr)) q = Some c"
  then have "c = empty_bank" by (rule init_state_banks)
  then show "overfull c \<or> (paired c \<and> interval_total c = playing_time c)"
    using empty_bank_balanced by simp
next
  fix pre row post t m c c'
  assume "(bank_step t m (cur_period (init_state hr vr) + period_ends pre))\<^sup>*\<^sup>* c c'"
    and "overfull c \<or> (paired c \<and> interval_total c = playing_time c)"
  then show "overfull c' \<or> (paired c' \<and> interval_total c' = playing_time c')"
    by (rule balanced_steps)
qed


subsection \<open>The dictionary keeps its keys in order\<close>

lemma update_present_keys:
  "map_of al k = Some b \<Longrightarrow> map fst (AList.update k v al) = map fst al"
  using map_of_eq_None_iff [of al k] by (auto simp: update_keys)

lemma substitution_key_order:
  assumes "substitution home_id st row t m = Inr st'"
  shows "map fst (time_on_court st') = map fst (time_on_court st)"
  using assms
  by (auto simp: substitution_def Let_def update_present_keys split: option.splits if_splits)

lemma close_all_key_order:
  "close_all t per ps toc = Inr toc' \<Longrightarrow> map fst toc' = map fst toc"
proof (induction ps arbitrary: toc)
  case Nil
  then show ?case by simp
next
  case (Cons p ps)
  from Cons.prems obtain b b' where b: "map_of toc p = Some b"
    and rest: "close_all t per ps (AList.update p b' toc) = Inr toc'"
    by (auto split: option.splits sum.splits)
  from Cons.IH [OF rest] update_present_keys [OF b] show ?case by simp
qed

lemma discover_key_order:
  "discover hr vr m st pid = Inr st' \<Longrightarrow>
   map fst (time_on_court st') = map fst (time_on_court st)"
  by (auto simp: discover_def update_present_keys split: option.splits if_splits)

lemma discover_all_key_order:
  "discover_all hr vr m st pids = Inr st' \<Longrightarrow>
   map fst (time_on_court st') = map fst (time_on_court st)"
proof (induction pids arbitrary: st)
  case Nil
  then show ?case by simp
next
  case (Cons pid pids)
  from Cons.prems obtain st1 where d: "discover hr vr m st pid = Inr st1"
    and rest: "discover_all hr vr m st1 pids = Inr st'"
    by (auto split: sum.splits)
  from Cons.IH [OF rest] discover_key_order [OF d] show ?case by simp
qed

lemma step_key_order:
  assumes "step hr vr h st row = Inr st'"
  shows "map fst (time_on_court st') = map fst (time_on_court st)"
  using assms
proof (cases rule: step_cases)
  case (sub t m)
  then show ?thesis by (simp add: substitution_key_order)
next
  case (period_end t m)
  then show ?thesis
    by (auto simp: period_end_def split: sum.splits dest: close_all_key_order)
next
  case (play t m)
  from play(5) show ?thesis unfolding generic_play_def by (rule discover_all_key_order)
next
  case (other t m)
  then show ?thesis by simp
qed

lemma run_events_key_order:
  "run_events hr vr h st rows = Inr st' \<Longrightarrow>
   map fst (time_on_court st') = map fst (time_on_court st)"
proof (induction rows arbitrary: st)
  case Nil
  then show ?case by simp
next
  case (Cons row rows)
  from Cons.prems obtain st1 where s: "step hr vr h st row = Inr st1"
    and r: "run_events hr vr h st1 rows = Inr st'"
    by (auto split: sum.splits)
  from Cons.IH [OF r] step_key_order [OF s] show ?case by simp
qed

lemma fold_update_distinct:
  "distinct (map fst toc) \<Longrightarrow>
   distinct (map fst (fold (\<lambda>player. AList.update player v) ks toc))"
  by (induction ks arbitrary: toc) (simp_all add: distinct_update)

lemma run_events_distinct_keys:
  assumes "run_events hr vr h (init_state hr vr) rows = Inr st"
  shows "distinct (map fst (time_on_court st))"
  using run_events_key_order [OF assms] fold_update_distinct [of "[]" empty_bank "hr @ vr"]
  by (simp add: init_state_def init_time_on_court_def)

subsection \<open>The interval table of a final dictionary\<close>

lemma player_frame_Inr:
  "player_frame hr h v p b = Inr rows \<Longrightarrow>
   length (time_in_list b) = length (time_out_list b)
   \<and> map player_id rows = replicate (length (intervals b)) p
   \<and> map (\<lambda>r. (sub_time_in r, sub_time_out r)) rows = intervals b"
  by (auto simp: player_frame_def intervals_def map_replicate_const [symmetric]
        split: if_splits prod.splits intro!: nth_equalityI)

lemma build_sub_df_player:
  assumes "build_sub_df hr h v toc acc = Inr sub_df"
    and "distinct (map fst toc)" and "map_of toc p = Some b"
    and "\<forall>r \<in> set (frame_rows acc). player_id r \<noteq> p"
  shows "length (time_in_list b) = length (time_out_list b)
    \<and> map (\<lambda>r. (sub_time_in r, sub_time_out r))
          (filter (\<lambda>r. player_id r = p) (frame_rows sub_df)) = intervals b"
  using assms
proof (induction toc arbitrary: acc)
  case Nil
  then show ?case by simp
next
  case (Cons entry toc)
  obtain q c where entry: "entry = (q, c)" by (cases entry)
  from Cons.prems(1) entry obtain rows where
    pf: "player_frame hr h v q c = Inr rows"
    and rest: "build_sub_df hr h v toc (concat_frame acc rows) = Inr sub_df"
    by (auto split: sum.splits)
  have rows_acc: "frame_rows (concat_frame acc rows) = frame_rows acc @ rows"
    by (cases acc) simp_all
  from player_frame_Inr [OF pf] have ids: "\<forall>r \<in> set rows. player_id r = q"
    by (metis in_set_replicate list.set_map imageI)
  show ?case
  proof (cases "q = p")
    case True
    with Cons.prems(3) entry have bc: "c = b" by simp
    from Cons.prems(2) entry True have notin: "p \<notin> fst ` set toc" by simp
    have later: "\<And>acc' out. build_sub_df hr h v toc acc' = Inr out \<Longrightarrow>
        filter (\<lambda>r. player_id r = p) (frame_rows out)
          = filter (\<lambda>r. player_id r = p) (frame_rows acc')"
      using notin
    proof (induction toc)
      case Nil
      then show ?case by simp
    next
      case (Cons e toc)
      obtain q' c' where e: "e = (q', c')" by (cases e)
      from Cons.prems(1) e obtain rows' where
        pf': "player_frame hr h v q' c' = Inr rows'"
        and rest': "build_sub_df hr h v toc (concat_frame acc' rows') = Inr out"
        by (auto split: sum.splits)
      from player_frame_Inr [OF pf'] have "\<forall>r \<in> set rows'. player_id r = q'"
        by (metis in_set_replicate list.set_map imageI)
      moreover from Cons.prems(2) e have "q' \<noteq> p" "p \<notin> fst ` set toc" by auto
      moreover have "frame_rows (concat_frame acc' rows') = frame_rows acc' @ rows'"
        by (cases acc') simp_all
      ultimately show ?case using Cons.IH [OF rest'] by (auto simp: filter_empty_conv)
    qed
    have "filter (\<lambda>r. player_id r = p) (frame_rows acc @ rows) = rows"
      using Cons.prems(4) ids True by (simp add: filter_empty_conv)
    with later [OF rest] rows_acc player_frame_Inr [OF pf] bc show ?thesis by simp
  next
    case False
    with Cons.prems(3) entry have "map_of toc p = Some b" by simp
    moreover from Cons.prems(2) have "distinct (map fst toc)" by simp
    moreover have "\<forall>r \<in> set (frame_rows (concat_frame acc rows)). player_id r \<noteq> p"
      using Cons.prems(4) ids False rows_acc by auto
    ultimately show ?thesis using Cons.IH [OF rest] by blast
  qed
qed

lemma interval_total_rows:
  assumes "map (\<lambda>r. (sub_time_in r, sub_time_out r)) rows = intervals b"
  shows "sum_list (map (\<lambda>r. sub_time_in r - sub_time_out r) rows) = interval_total b"
proof -
  have "map (\<lambda>r. sub_time_in r - sub_time_out r) rows
      = map (\<lambda>(i, out). i - out) (map (\<lambda>r. (sub_time_in r, sub_time_out r)) rows)"
    by simp
  then show ?thesis unfolding assms interval_total_def by simp
qed


lemma process_pbp_data_run:
  assumes "process_pbp_data pbp_df hr vr h v = Inr (sub_df, ordered)"
  shows "\<exists>st. run_events hr vr h (init_state hr vr) ordered = Inr st
            \<and> build_sub_df hr h v (time_on_court st) NoColumns = Inr sub_df"
  using assms by (auto simp: process_pbp_data_def split: sum.splits)

lemma final_bank_intervals:
  assumes run: "run_events hr vr h (init_state hr vr) rows = Inr st"
    and build: "build_sub_df hr h v (time_on_court st) NoColumns = Inr sub_df"
    and bank: "map_of (time_on_court st) p = Some b"
  shows "map (\<lambda>r. (sub_time_in r, sub_time_out r))
           (filter (\<lambda>r. player_id r = p) (frame_rows sub_df)) = intervals b"
    and "paired b" and "time_in b = None" and "interval_total b = playing_time b"
proof -
  from build_sub_df_player [OF build run_events_distinct_keys [OF run] bank]
  have len: "length (time_in_list b) = length (time_out_list b)"
    and ivs: "map (\<lambda>r. (sub_time_in r, sub_time_out r))
           (filter (\<lambda>r. player_id r = p) (frame_rows sub_df)) = intervals b"
    by simp_all
  from len have "\<not> overfull b" by (simp add: overfull_def split: option.splits)
  with run_events_balanced [OF run bank]
  have pb: "paired b" and tot: "interval_total b = playing_time b" by simp_all
  from pb len have closed: "time_in b = None"
    by (cases "time_in b") (simp_all add: paired_def)
  show "map (\<lambda>r. (sub_time_in r, sub_time_out r))
           (filter (\<lambda>r. player_id r = p) (frame_rows sub_df)) = intervals b"
    by (rule ivs)
  show "paired b" by (rule pb)
  show "time_in b = None" by (rule closed)
  show "interval_total b = playing_time b" by (rule tot)
qed

text \<open>
  Claim C8. When \<^verbatim>\<open>process_pbp_data\<close> returns, the loop has ended in a state whose time
  bank has the roster players as keys, and for every player the sum of
  \<open>time_in - time_out\<close> over that player's rows of the interval table equals the
  \<^verbatim>\<open>playing_time\<close> counter of the player's entry.
\<close>

theorem C8_interval_sum_equals_playing_time:
  assumes "process_pbp_data pbp_df home_roster visitor_roster home_id visitor_id
             = Inr (sub_df, ordered)"
  shows "\<exists>st. run_events home_roster visitor_roster home_id
                (init_state home_roster visitor_roster) ordered = Inr st
      \<and> fst ` set (time_on_court st) = set (home_roster @ visitor_roster)
      \<and> (\<forall>p b. map_of (time_on_court st) p = Some b \<longrightarrow>
            sum_list (map (\<lambda>r. sub_time_in r - sub_time_out r)
                        (filter (\<lambda>r. player_id r = p) (frame_rows sub_df)))
              = playing_time b)"
proof -
  from process_pbp_data_run [OF assms] obtain st where
    run: "run_events home_roster visitor_roster home_id
            (init_state home_roster visitor_roster) ordered = Inr st"
    and build: "build_sub_df home_roster home_id visitor_id (time_on_court st) NoColumns
                  = Inr sub_df"
    by blast
  have keys: "fst ` set (time_on_court st) = set (home_roster @ visitor_roster)"
    using run_events_keys [OF run] init_state_keys by simp
  have "sum_list (map (\<lambda>r. sub_time_in r - sub_time_out r)
                        (filter (\<lambda>r. player_id r = p) (frame_rows sub_df)))
              = playing_time b"
    if "map_of (time_on_court st) p = Some b" for p b
    using final_bank_intervals(1,4) [OF run build that] interval_total_rows by metis
  with run keys show ?thesis by blast
qed

theorem C8_interval_sum_equals_playing_time_witness:
  "\<exists>sub_df ordered.
      process_pbp_data double_checkout_game [1, 2, 3, 4, 5, 6] [11, 12, 13, 14, 15] 100 200
        = Inr (sub_df, ordered)
      \<and> map (\<lambda>r. (sub_time_in r, sub_time_out r))
            (filter (\<lambda>r. player_id r = 4) (frame_rows sub_df)) = [(2400, 2000), (2400, 1900)]
      \<and> (\<exists>st b. run_events [1, 2, 3, 4, 5, 6] [11, 12, 13, 14, 15] 100
                    (init_state [1, 2, 3, 4, 5, 6] [11, 12, 13, 14, 15]) ordered = Inr st
             \<and> map_of (time_on_court st) 4 = Some b
             \<and> playing_time b = 900)"
proof -
  have run: "(case process_pbp_data double_checkout_game [1, 2, 3, 4, 5, 6]
                     [11, 12, 13, 14, 15] 100 200 of
                Inl e \<Rightarrow> False
              | Inr (sub_df, ordered) \<Rightarrow>
                  map (\<lambda>r. (sub_time_in r, sub_time_out r))
                    (filter (\<lambda>r. player_id r = 4) (frame_rows sub_df))
                    = [(2400, 2000), (2400, 1900)])"
    by code_simp
  then obtain sub_df ordered where
    p: "process_pbp_data double_checkout_game [1, 2, 3, 4, 5, 6] [11, 12, 13, 14, 15] 100 200
          = Inr (sub_df, ordered)"
    and ivs: "map (\<lambda>r. (sub_time_in r, sub_time_out r))
                (filter (\<lambda>r. player_id r = 4) (frame_rows sub_df))
                = [(2400, 2000), (2400, 1900)]"
    by (cases "process_pbp_data double_checkout_game [1, 2, 3, 4, 5, 6]
                 [11, 12, 13, 14, 15] 100 200") auto
  from C8_interval_sum_equals_playing_time [OF p] obtain st where
    st: "run_events [1, 2, 3, 4, 5, 6] [11, 12, 13, 14, 15] 100
           (init_state [1, 2, 3, 4, 5, 6] [11, 12, 13, 14, 15]) ordered = Inr st"
    and keys: "fst ` set (time_on_court st) = set ([1, 2, 3, 4, 5, 6] @ [11, 12, 13, 14, 15])"
    and tot: "\<forall>p b. map_of (time_on_court st) p = Some b \<longrightarrow>
            sum_list (map (\<lambda>r. sub_time_in r - sub_time_out r)
                        (filter (\<lambda>r. player_id r = p) (frame_rows sub_df)))
              = playing_time b"
    by blast
  from keys have "4 \<in> fst ` set (time_on_court st)" by simp
  then obtain b where b: "map_of (time_on_court st) 4 = Some b"
    using map_of_eq_None_iff [of "time_on_court st" 4] by auto
  have "sum_list (map (\<lambda>r. sub_time_in r - sub_time_out r)
                   (filter (\<lambda>r. player_id r = 4) (frame_rows sub_df)))
      = sum_list (map (\<lambda>(i, out). i - out)
          (map (\<lambda>r. (sub_time_in r, sub_time_out r))
             (filter (\<lambda>r. player_id r = 4) (frame_rows sub_df))))"
    by (simp add: comp_def)
  also have "\<dots> = 900" unfolding ivs by simp
  finally have pt: "playing_time b = 900" using tot b by simp
  from st b pt have "\<exists>st b. run_events [1, 2, 3, 4, 5, 6] [11, 12, 13, 14, 15] 100
                    (init_state [1, 2, 3, 4, 5, 6] [11, 12, 13, 14, 15]) ordered = Inr st
             \<and> map_of (time_on_court st) 4 = Some b
             \<and> playing_time b = 900"
    by auto
  with p ivs show ?thesis by auto
qed

section \<open>State machine: order of a player's intervals\<close>

lemma paired_outs:
  "paired b \<Longrightarrow> map snd (intervals b) = time_out_list b"
  by (cases "time_in b")
     (auto simp: paired_def intervals_def map_snd_zip_take min_def)

lemma regular_mono:
  "regular past late starts b \<Longrightarrow> past \<subseteq> past' \<Longrightarrow> regular past' late starts b"
  by (auto simp: regular_def split: option.splits)

lemma regular_close:
  assumes reg: "regular past late starts b"
    and ivs: "intervals b' = intervals b @ [(s, t)]"
    and outs: "time_out_list b' = time_out_list b @ [t]"
    and closed: "time_in b' = None" and paired: "paired b'"
    and now: "t \<in> past" "\<forall>x \<in> past. t \<le> x"
    and above: "t \<le> s \<or> s \<in> late"
    and below: "(\<forall>x \<in> set (time_out_list b). s \<le> x) \<or> s \<in> starts"
  shows "regular past late starts b'"
proof -
  from reg have pb: "paired b" by (simp add: regular_def)
  have outs_of: "out \<in> set (time_out_list b)" if "(i, out) \<in> set (intervals b)" for i out
    using that paired_outs [OF pb] by (metis image_eqI list.set_map snd_conv)
  have "sorted_wrt (\<lambda>x y. y \<le> x) (time_out_list b')"
    using reg now unfolding outs by (auto simp: regular_def sorted_wrt_append)
  moreover have "set (time_out_list b') \<subseteq> past"
    using reg now(1) unfolding outs by (auto simp: regular_def)
  moreover have "\<forall>(i, out) \<in> set (intervals b'). out \<le> i \<or> i \<in> late"
    using reg above unfolding ivs by (auto simp: regular_def)
  moreover have "sorted_wrt (\<lambda>(i, out) (i', out'). i' \<le> out \<or> i' \<in> starts) (intervals b')"
    using reg below outs_of unfolding ivs by (auto simp: regular_def sorted_wrt_append)
  ultimately show ?thesis using closed paired by (simp add: regular_def)
qed

lemma regular_open:
  assumes reg: "regular past late starts b"
    and ivs: "intervals b' = intervals b"
    and outs: "time_out_list b' = time_out_list b"
    and opened: "time_in b' = Some s" and paired: "paired b'"
    and above: "(\<exists>x \<in> past. x \<le> s) \<or> s \<in> late"
    and below: "(\<forall>x \<in> set (time_out_list b). s \<le> x) \<or> s \<in> starts"
  shows "regular past late starts b'"
  using assms by (simp add: regular_def)

lemma regular_step:
  assumes step: "bank_step t m per b b'"
    and reg: "regular past late starts b"
    and now: "t \<in> past" "\<forall>x \<in> past. t \<le> x"
    and start: "m \<in> starts" "t \<le> m \<or> m \<in> late"
  shows "regular past late starts b' \<or> overfull b'"
proof -
  from reg have pb: "paired b" by (simp add: regular_def)
  from paired_step [OF step pb] show ?thesis
  proof
    assume "overfull b'"
    then show ?thesis by simp
  next
    assume pb': "paired b'"
    have "regular past late starts b'"
      using step
    proof cases
      case checked_out
      show ?thesis
      proof (cases "time_in b")
        case None
        show ?thesis
        proof (rule regular_close [OF reg _ _ _ pb' now])
          show "intervals b' = intervals b @ [(m, t)]"
            unfolding checked_out by (rule intervals_check_out_closed [OF pb None])
          show "time_out_list b' = time_out_list b @ [t]"
            unfolding checked_out using None by (simp add: check_out_def)
          show "time_in b' = None"
            unfolding checked_out using None by (simp add: check_out_def)
          show "t \<le> m \<or> m \<in> late" by (rule start(2))
          show "(\<forall>x \<in> set (time_out_list b). m \<le> x) \<or> m \<in> starts"
            using start(1) by simp
        qed
      next
        case (Some s)
        show ?thesis
        proof (rule regular_close [OF reg _ _ _ pb' now])
          show "intervals b' = intervals b @ [(s, t)]"
            unfolding checked_out by (rule intervals_check_out_open [OF pb Some])
          show "time_out_list b' = time_out_list b @ [t]"
            unfolding checked_out using Some by (simp add: check_out_def)
          show "time_in b' = None"
            unfolding checked_out using Some by (simp add: check_out_def)
          show "t \<le> s \<or> s \<in> late"
            using reg Some now(2) by (auto simp: regular_def)
          show "(\<forall>x \<in> set (time_out_list b). s \<le> x) \<or> s \<in> starts"
            using reg Some by (simp add: regular_def)
        qed
      qed
    next
      case checked_in
      with pb pb' have none: "time_in b = None"
        by (cases "time_in b") (auto simp: paired_def check_in_def)
      show ?thesis
      proof (rule regular_open [OF reg _ _ _ pb'])
        show "intervals b' = intervals b"
          unfolding checked_in by (rule intervals_check_in [OF pb none])
        show "time_out_list b' = time_out_list b"
          unfolding checked_in by (simp add: check_in_def)
        show "time_in b' = Some t"
          unfolding checked_in by (simp add: check_in_def)
        show "(\<exists>x \<in> past. x \<le> t) \<or> t \<in> late" using now(1) by auto
        show "(\<forall>x \<in> set (time_out_list b). t \<le> x) \<or> t \<in> starts"
          using reg now(2) by (auto simp: regular_def)
      qed
    next
      case discovered
      with pb pb' have none: "time_in b = None"
        by (cases "time_in b") (auto simp: paired_def check_in_def)
      show ?thesis
      proof (rule regular_open [OF reg _ _ _ pb'])
        show "intervals b' = intervals b"
          unfolding discovered by (rule intervals_check_in [OF pb none])
        show "time_out_list b' = time_out_list b"
          unfolding discovered by (simp add: check_in_def)
        show "time_in b' = Some m"
          unfolding discovered by (simp add: check_in_def)
        show "(\<exists>x \<in> past. x \<le> m) \<or> m \<in> late" using now(1) start(2) by auto
        show "(\<forall>x \<in> set (time_out_list b). m \<le> x) \<or> m \<in> starts"
          using start(1) by simp
      qed
    next
      case closed
      from intervals_period_close [OF pb closed] obtain s where
        s: "time_in b = Some s" "intervals b' = intervals b @ [(s, t)]" by blast
      show ?thesis
      proof (rule regular_close [OF reg s(2) _ _ pb' now])
        show "time_out_list b' = time_out_list b @ [t]"
          using closed s(1) by (auto simp: period_close_def)
        show "time_in b' = None"
          using closed s(1) by (auto simp: period_close_def)
        show "t \<le> s \<or> s \<in> late"
          using reg s(1) now(2) by (auto simp: regular_def)
        show "(\<forall>x \<in> set (time_out_list b). s \<le> x) \<or> s \<in> starts"
          using reg s(1) by (simp add: regular_def)
      qed
    qed
    then show ?thesis by simp
  qed
qed

lemma regular_steps:
  assumes "(bank_step t m per)\<^sup>*\<^sup>* b b'"
    and "regular past late starts b \<or> overfull b"
    and "t \<in> past" "\<forall>x \<in> past. t \<le> x" "m \<in> starts" "t \<le> m \<or> m \<in> late"
  shows "regular past late starts b' \<or> overfull b'"
  using assms(1,2)
proof (induction rule: rtranclp_induct)
  case base
  then show ?case by simp
next
  case (step y z)
  from step.IH [OF step.prems] show ?case
  proof
    assume "regular past late starts y"
    from regular_step [OF step.hyps(2) this assms(3-6)] show ?thesis .
  next
    assume "overfull y"
    with step.hyps(2) show ?thesis by (auto dest: overfull_step)
  qed
qed


lemma empty_bank_regular: "regular past late starts empty_bank"
  by (simp add: regular_def paired_def intervals_def empty_bank_def)

lemma run_events_regular:
  assumes run: "run_events hr vr h (init_state hr vr) rows = Inr st"
    and sorted: "sorted_wrt (\<lambda>a b. clock_time b \<le> clock_time a) rows"
    and bank: "map_of (time_on_court st) p = Some b"
  shows "regular (clock_time ` set rows) (late_starts rows) (period_starts rows) b
         \<or> overfull b"
proof (rule run_events_banks
    [where I = "\<lambda>pre c. regular (clock_time ` set pre) (late_starts rows) (period_starts rows) c
                         \<or> overfull c",
     OF run _ _ bank])
  fix q c
  assume "map_of (time_on_court (init_state hr vr)) q = Some c"
  then have "c = empty_bank" by (rule init_state_banks)
  then show "regular (clock_time ` set []) (late_starts rows) (period_starts rows) c
             \<or> overfull c"
    using empty_bank_regular by simp
next
  fix pre row post t m c c'
  assume rows: "rows = pre @ row # post"
    and clock: "play_clock_to_seconds (pctimestring row) (period row) = Inr (t, m)"
    and inv: "regular (clock_time ` set pre) (late_starts rows) (period_starts rows) c
              \<or> overfull c"
    and steps: "(bank_step t m (cur_period (init_state hr vr) + period_ends pre))\<^sup>*\<^sup>* c c'"
  have t: "clock_time row = t" and m: "period_start row = m"
    using clock by (simp_all add: clock_time_def period_start_def)
  have inv': "regular (clock_time ` set (pre @ [row])) (late_starts rows) (period_starts rows) c
              \<or> overfull c"
    using inv by (auto intro: regular_mono)
  have now: "t \<in> clock_time ` set (pre @ [row])" using t by auto
  have least: "\<forall>x \<in> clock_time ` set (pre @ [row]). t \<le> x"
    using sorted t unfolding rows by (auto simp: sorted_wrt_append)
  have "row \<in> set rows" using rows by simp
  then have start: "m \<in> period_starts rows" and late: "t \<le> m \<or> m \<in> late_starts rows"
    using t m by (auto simp: period_starts_def late_starts_def)
  from regular_steps [OF steps inv' now least start late]
  show "regular (clock_time ` set (pre @ [row])) (late_starts rows) (period_starts rows) c'
        \<or> overfull c'" .
qed

lemma add_game_time_remaining_parsed:
  "add_game_time_remaining pbp = Inr timed \<Longrightarrow> r \<in> set timed \<Longrightarrow>
   \<exists>m. play_clock_to_seconds (pctimestring r) (period r) = Inr (game_time_remaining r, m)"
proof (induction pbp arbitrary: timed)
  case Nil
  then show ?case by simp
next
  case (Cons e es)
  from Cons.prems(1) obtain t m ts where
    c: "play_clock_to_seconds (pctimestring e) (period e) = Inr (t, m)"
    and ts: "add_game_time_remaining es = Inr ts"
    and timed: "timed = \<lparr>game_id = game_id e, eventnum = eventnum e, period = period e,
                     pctimestring = pctimestring e, eventmsgtype = eventmsgtype e,
                     player1_id = player1_id e, player1_team_id = player1_team_id e,
                     player2_id = player2_id e, player3_id = player3_id e,
                     game_time_remaining = t\<rparr> # ts"
    by (auto split: sum.splits prod.splits)
  from Cons.prems(2) timed consider
    "r = \<lparr>game_id = game_id e, eventnum = eventnum e, period = period e,
                     pctimestring = pctimestring e, eventmsgtype = eventmsgtype e,
                     player1_id = player1_id e, player1_team_id = player1_team_id e,
                     player2_id = player2_id e, player3_id = player3_id e,
                     game_time_remaining = t\<rparr>" | "r \<in> set ts"
    by auto
  then show ?case
  proof cases
    case 1
    with c show ?thesis by simp
  next
    case 2
    with Cons.IH [OF ts] show ?thesis by blast
  qed
qed

lemma add_game_time_remaining_clock:
  assumes "add_game_time_remaining pbp = Inr timed"
  shows "\<forall>r \<in> set timed. clock_time r = game_time_remaining r"
proof
  fix r
  assume "r \<in> set timed"
  from add_game_time_remaining_parsed [OF assms this] show "clock_time r = game_time_remaining r"
    by (auto simp: clock_time_def)
qed

lemma process_pbp_data_sorted:
  assumes "process_pbp_data pbp_df hr vr h v = Inr (sub_df, ordered)"
  shows "sorted_wrt (\<lambda>a b. clock_time b \<le> clock_time a) ordered"
proof -
  from process_pbp_data_ordered [OF assms] obtain timed where
    timed: "add_game_time_remaining pbp_df = Inr timed" "ordered = sort_values timed" by blast
  have clock: "\<forall>r \<in> set ordered. clock_time r = game_time_remaining r"
    using add_game_time_remaining_clock [OF timed(1)] timed(2) by (simp add: sort_values_def)
  have "sorted_wrt precedes ordered"
    unfolding timed(2) by (rule sorted_wrt_precedes_sort_values)
  then show ?thesis
  proof (rule sorted_wrt_mono_rel [rotated])
    fix a b
    assume "a \<in> set ordered" "b \<in> set ordered" "precedes a b"
    with clock show "clock_time b \<le> clock_time a" by (auto simp: precedes_def)
  qed
qed

subsection \<open>The interval opened by a substitution\<close>

lemma run_events_append:
  "run_events hr vr h st (xs @ ys) =
     (case run_events hr vr h st xs of
        Inl e \<Rightarrow> Inl e
      | Inr st1 \<Rightarrow> run_events hr vr h st1 ys)"
  by (induction xs arbitrary: st) (auto split: sum.splits)

lemma run_events_bank_of:
  assumes run: "run_events hr vr h st rows = Inr st'"
    and start: "map_of (time_on_court st) p = Some b0" and init: "I [] b0"
    and pres: "\<And>pre row post t m b b'.
       rows = pre @ row # post \<Longrightarrow>
       play_clock_to_seconds (pctimestring row) (period row) = Inr (t, m) \<Longrightarrow>
       I pre b \<Longrightarrow> (bank_step t m (cur_period st + period_ends pre))\<^sup>*\<^sup>* b b' \<Longrightarrow>
       I (pre @ [row]) b'"
  shows "\<exists>b. map_of (time_on_court st') p = Some b \<and> I rows b"
  using run pres
proof (induction rows arbitrary: st' rule: rev_induct)
  case Nil
  then show ?case using start init by simp
next
  case (snoc row rows)
  from snoc.prems(1) obtain st1 where r: "run_events hr vr h st rows = Inr st1"
    and s: "step hr vr h st1 row = Inr st'"
    by (auto simp: run_events_snoc split: sum.splits)
  from step_clock [OF s] obtain t m where
    c: "play_clock_to_seconds (pctimestring row) (period row) = Inr (t, m)" by blast
  have per: "cur_period st1 = cur_period st + period_ends rows"
    using r by (rule run_events_cur_period)
  have "\<exists>b. map_of (time_on_court st1) p = Some b \<and> I rows b"
  proof (rule snoc.IH [OF r])
    fix pre row' post t m b b'
    assume "rows = pre @ row' # post"
    then have "rows @ [row] = pre @ row' # (post @ [row])" by simp
    moreover assume "play_clock_to_seconds (pctimestring row') (period row') = Inr (t, m)"
      "I pre b" "(bank_step t m (cur_period st + period_ends pre))\<^sup>*\<^sup>* b b'"
    ultimately show "I (pre @ [row']) b'" by (rule snoc.prems(2))
  qed
  then obtain b1 where b1: "map_of (time_on_court st1) p = Some b1" and i1: "I rows b1"
    by blast
  from step_banks [OF s c] b1 obtain b where
    b: "map_of (time_on_court st') p = Some b"
    and mv: "(bank_step t m (cur_period st1))\<^sup>*\<^sup>* b1 b"
    unfolding banks_rel_def by (metis option.rel_cases option.inject option.distinct(1))
  have "rows @ [row] = rows @ row # []" by simp
  from snoc.prems(2) [OF this c i1] mv per have "I (rows @ [row]) b" by simp
  with b show ?case by blast
qed

lemma bank_step_lists:
  assumes "bank_step t m per b b'"
  shows "\<exists>ins outs. time_in_list b' = time_in_list b @ ins
           \<and> time_out_list b' = time_out_list b @ outs \<and> set outs \<subseteq> {t}"
  using assms
  by cases (auto simp: check_out_def check_in_def period_close_def split: option.splits)

lemma bank_steps_lists:
  assumes "(bank_step t m per)\<^sup>*\<^sup>* b b'"
  shows "\<exists>ins outs. time_in_list b' = time_in_list b @ ins
           \<and> time_out_list b' = time_out_list b @ outs \<and> set outs \<subseteq> {t}"
  using assms
proof (induction rule: rtranclp_induct)
  case base
  then show ?case by simp
next
  case (step y z)
  then obtain ins outs where y: "time_in_list y = time_in_list b @ ins"
    "time_out_list y = time_out_list b @ outs" "set outs \<subseteq> {t}" by blast
  from bank_step_lists [OF step.hyps(2)] obtain ins' outs' where
    z: "time_in_list z = time_in_list y @ ins'" "time_out_list z = time_out_list y @ outs'"
      "set outs' \<subseteq> {t}" by blast
  from y z have "time_in_list z = time_in_list b @ (ins @ ins')"
    "time_out_list z = time_out_list b @ (outs @ outs')" "set (outs @ outs') \<subseteq> {t}"
    by auto
  then show ?case by blast
qed

lemma run_events_lists_grow:
  fixes rows :: "'a event_scheme list"
  assumes run: "run_events hr vr h st rows = Inr st'"
    and start: "map_of (time_on_court st) p = Some b0"
  shows "\<exists>b ins outs. map_of (time_on_court st') p = Some b
           \<and> time_in_list b = time_in_list b0 @ ins
           \<and> time_out_list b = time_out_list b0 @ outs
           \<and> set outs \<subseteq> clock_time ` set rows"
proof -
  have "\<exists>b. map_of (time_on_court st') p = Some b
          \<and> (\<exists>ins outs. time_in_list b = time_in_list b0 @ ins
                \<and> time_out_list b = time_out_list b0 @ outs
                \<and> set outs \<subseteq> clock_time ` set rows)"
  proof (rule run_events_bank_of
      [where I = "\<lambda>pre c. \<exists>ins outs. time_in_list c = time_in_list b0 @ ins
                \<and> time_out_list c = time_out_list b0 @ outs
                \<and> set outs \<subseteq> clock_time ` set pre",
       OF run start])
    show "\<exists>ins outs. time_in_list b0 = time_in_list b0 @ ins
            \<and> time_out_list b0 = time_out_list b0 @ outs
            \<and> set outs \<subseteq> clock_time ` set ([] :: 'a event_scheme list)"
      by simp
  next
    fix pre post :: "'a event_scheme list" and row :: "'a event_scheme" and t m c c'
    assume clock: "play_clock_to_seconds (pctimestring row) (period row) = Inr (t, m)"
      and inv: "\<exists>ins outs. time_in_list c = time_in_list b0 @ ins
                \<and> time_out_list c = time_out_list b0 @ outs
                \<and> set outs \<subseteq> clock_time ` set pre"
      and steps: "(bank_step t m (cur_period st + period_ends pre))\<^sup>*\<^sup>* c c'"
    from inv obtain ins outs where c: "time_in_list c = time_in_list b0 @ ins"
      "time_out_list c = time_out_list b0 @ outs" "set outs \<subseteq> clock_time ` set pre"
      by blast
    from bank_steps_lists [OF steps] obtain ins' outs' where
      c': "time_in_list c' = time_in_list c @ ins'" "time_out_list c' = time_out_list c @ outs'"
        "set outs' \<subseteq> {t}" by blast
    have t: "clock_time row = t" using clock by (simp add: clock_time_def)
    from c c' t have "time_in_list c' = time_in_list b0 @ (ins @ ins')"
      "time_out_list c' = time_out_list b0 @ (outs @ outs')"
      "set (outs @ outs') \<subseteq> clock_time ` set (pre @ [row])"
      by auto
    then show "\<exists>ins outs. time_in_list c' = time_in_list b0 @ ins
                \<and> time_out_list c' = time_out_list b0 @ outs
                \<and> set outs \<subseteq> clock_time ` set (pre @ [row])"
      by blast
  qed
  then show ?thesis by blast
qed

lemma overfull_steps:
  assumes "(bank_step t m per)\<^sup>*\<^sup>* b b'" and "overfull b"
  shows "overfull b'"
  using assms by (induction rule: rtranclp_induct) (auto dest: overfull_step)

lemma run_events_overfull:
  assumes run: "run_events hr vr h st rows = Inr st'"
    and start: "map_of (time_on_court st) p = Some b0" and over: "overfull b0"
  shows "\<exists>b. map_of (time_on_court st') p = Some b \<and> overfull b"
proof (rule run_events_bank_of [where I = "\<lambda>pre c. overfull c", OF run start over])
  fix pre row post t m c c'
  assume "overfull c" and "(bank_step t m (cur_period st + period_ends pre))\<^sup>*\<^sup>* c c'"
  then show "overfull c'"
    using overfull_steps by blast
qed

lemma substitution_incoming:
  assumes "substitution home_id st row t m = Inr st'" and "player2_id row = Some p"
  shows "\<exists>b. map_of (time_on_court st') p = Some b \<and> time_in b = Some t"
  using assms
  by (auto simp: substitution_def Let_def update_conv' check_in_def
        split: option.splits if_splits)


lemma substitution_interval:
  fixes pre post :: "'a event_scheme list"
  assumes run: "run_events hr vr h (init_state hr vr) (pre @ row # post) = Inr stf"
    and sorted: "sorted_wrt (\<lambda>a b. clock_time b \<le> clock_time a) (pre @ row # post)"
    and ty: "eventmsgtype row = 8" and inc: "player2_id row = Some p"
    and final: "map_of (time_on_court stf) p = Some bf"
    and pf: "paired bf" and cf: "time_in bf = None"
  shows "\<exists>st1 b1. run_events hr vr h (init_state hr vr) (pre @ [row]) = Inr st1
      \<and> map_of (time_on_court st1) p = Some b1
      \<and> length (time_out_list b1) < length (intervals bf)
      \<and> fst (intervals bf ! length (time_out_list b1)) = clock_time row
      \<and> snd (intervals bf ! length (time_out_list b1)) \<le> clock_time row
      \<and> (\<forall>j<length (time_out_list b1). clock_time row \<le> snd (intervals bf ! j))"
proof -
  have "run_events hr vr h (init_state hr vr) ((pre @ [row]) @ post) = Inr stf"
    using run by simp
  then obtain st1 where r1: "run_events hr vr h (init_state hr vr) (pre @ [row]) = Inr st1"
    and r2: "run_events hr vr h st1 post = Inr stf"
    unfolding run_events_append [of hr vr h _ "pre @ [row]" post]
    by (auto split: sum.splits)
  from r1 obtain st0 where s: "step hr vr h st0 row = Inr st1"
    by (auto simp: run_events_snoc split: sum.splits)
  from step_clock [OF s] obtain t m where
    clock: "play_clock_to_seconds (pctimestring row) (period row) = Inr (t, m)" by blast
  then have tc: "clock_time row = t" by (simp add: clock_time_def)
  from s ty clock have "substitution h st0 row t m = Inr st1" by (simp add: step_def)
  from substitution_incoming [OF this inc] obtain b1 where
    b1: "map_of (time_on_court st1) p = Some b1" and open1: "time_in b1 = Some t" by blast
  from run_events_lists_grow [OF r2 b1] final obtain ins outs where
    tin: "time_in_list bf = time_in_list b1 @ ins"
    and tout: "time_out_list bf = time_out_list b1 @ outs"
    and later: "set outs \<subseteq> clock_time ` set post"
    by auto
  have nof: "\<not> overfull bf" using pf cf by (simp add: paired_def overfull_def)
  have "\<not> overfull b1"
  proof
    assume "overfull b1"
    from run_events_overfull [OF r2 b1 this] final nof show False by simp
  qed
  moreover have "sorted_wrt (\<lambda>a b. clock_time b \<le> clock_time a) (pre @ [row])"
    using sorted by (auto simp: sorted_wrt_append)
  ultimately have reg: "regular (clock_time ` set (pre @ [row])) (late_starts (pre @ [row]))
      (period_starts (pre @ [row])) b1"
    using run_events_regular [OF r1 _ b1] by blast
  then have p1: "paired b1" by (simp add: regular_def)
  with open1 have len1: "length (time_in_list b1) = Suc (length (time_out_list b1))"
    and last1: "last (time_in_list b1) = t"
    by (simp_all add: paired_def)
  have before: "\<forall>x \<in> set (time_out_list b1). t \<le> x"
  proof
    fix x
    assume "x \<in> set (time_out_list b1)"
    with reg have "x \<in> clock_time ` set (pre @ [row])" by (auto simp: regular_def)
    then show "t \<le> x" using sorted tc by (auto simp: sorted_wrt_append)
  qed
  have after: "\<forall>x \<in> set outs. x \<le> t"
  proof
    fix x
    assume "x \<in> set outs"
    with later have "x \<in> clock_time ` set post" by blast
    then show "x \<le> t" using sorted tc by (auto simp: sorted_wrt_append)
  qed
  have lenf: "length (time_in_list bf) = length (time_out_list bf)"
    using pf cf by (simp add: paired_def)
  with tin tout len1 have outs: "outs \<noteq> []" by auto
  let ?k = "length (time_out_list b1)"
  have k_out: "?k < length (time_out_list bf)" using tout outs by simp
  have k_in: "?k < length (time_in_list bf)" using lenf k_out by simp
  have ivs_k: "intervals bf ! ?k = (time_in_list bf ! ?k, time_out_list bf ! ?k)"
    unfolding intervals_def using k_in k_out by (rule nth_zip)
  have "time_in_list b1 \<noteq> []" using len1 by auto
  then have "time_in_list b1 ! ?k = t"
    using last1 len1 by (simp add: last_conv_nth)
  then have in_k: "time_in_list bf ! ?k = t"
    using tin len1 by (simp add: nth_append)
  have "time_out_list bf ! ?k = outs ! 0" using tout by (simp add: nth_append)
  moreover have "outs ! 0 \<in> set outs" using outs by simp
  ultimately have out_k: "time_out_list bf ! ?k \<le> t" using after by simp
  have len_ivs: "?k < length (intervals bf)"
    unfolding intervals_def using k_in k_out by simp
  have earlier: "\<forall>j<?k. t \<le> snd (intervals bf ! j)"
  proof (intro allI impI)
    fix j
    assume j: "j < ?k"
    then have "intervals bf ! j = (time_in_list bf ! j, time_out_list bf ! j)"
      unfolding intervals_def using k_in k_out by (intro nth_zip) simp_all
    moreover have "time_out_list bf ! j = time_out_list b1 ! j"
      using tout j by (simp add: nth_append)
    moreover have "time_out_list b1 ! j \<in> set (time_out_list b1)" using j by simp
    ultimately show "t \<le> snd (intervals bf ! j)" using before by simp
  qed
  from r1 b1 len_ivs ivs_k in_k out_k earlier tc show ?thesis by auto
qed


text \<open>
  Claim C7, as amended. When \<^verbatim>\<open>process_pbp_data\<close> returns, the intervals of every roster
  player, in construction order, have non-increasing \<open>time_out\<close>, and every interval has
  \<open>time_in \<ge> time_out\<close> unless its \<open>time_in\<close> equals the \<open>max_period_time\<close> of some row whose
  clock exceeds that \<open>max_period_time\<close>. Moreover, whenever a substitution row names the
  player as the incoming player, the interval opened there (its position among the player's
  intervals is the number of check-outs the player's entry holds once the row has been
  consumed) has \<open>time_in\<close> equal to the row's \<open>game_time_remaining\<close>, has
  \<open>time_in \<ge> time_out\<close>, starts at or below the \<open>time_out\<close> of every earlier interval of the
  player, and starts at or below the \<open>time_in\<close> of every earlier interval that itself has
  \<open>time_in \<ge> time_out\<close>. These four properties are stated for the check-ins of
  substitution rows only, not for a check-in backdated to \<open>max_period_time\<close> for an
  implicit starter.
\<close>

theorem C7_interval_order:
  assumes "process_pbp_data pbp_df home_roster visitor_roster home_id visitor_id
             = Inr (sub_df, ordered)"
    and "p \<in> set (home_roster @ visitor_roster)"
    and "ivs = map (\<lambda>r. (sub_time_in r, sub_time_out r))
                 (filter (\<lambda>r. player_id r = p) (frame_rows sub_df))"
  shows "sorted_wrt (\<lambda>x y. y \<le> x) (map snd ivs)
    \<and> (\<forall>(i, out) \<in> set ivs. out \<le> i \<or> i \<in> late_starts ordered)
    \<and> (\<forall>pre row post.
          ordered = pre @ row # post \<and> eventmsgtype row = 8 \<and> player2_id row = Some p \<longrightarrow>
          (\<exists>st1 b1.
              run_events home_roster visitor_roster home_id
                (init_state home_roster visitor_roster) (pre @ [row]) = Inr st1
            \<and> map_of (time_on_court st1) p = Some b1
            \<and> length (time_out_list b1) < length ivs
            \<and> fst (ivs ! length (time_out_list b1)) = game_time_remaining row
            \<and> snd (ivs ! length (time_out_list b1)) \<le> fst (ivs ! length (time_out_list b1))
            \<and> (\<forall>j<length (time_out_list b1).
                  fst (ivs ! length (time_out_list b1)) \<le> snd (ivs ! j)
                  \<and> (snd (ivs ! j) \<le> fst (ivs ! j) \<longrightarrow>
                       fst (ivs ! length (time_out_list b1)) \<le> fst (ivs ! j)))))"
proof -
  from process_pbp_data_run [OF assms(1)] obtain st where
    run: "run_events home_roster visitor_roster home_id
            (init_state home_roster visitor_roster) ordered = Inr st"
    and build: "build_sub_df home_roster home_id visitor_id (time_on_court st) NoColumns
                  = Inr sub_df"
    by blast
  have "p \<in> fst ` set (time_on_court st)"
    using run_events_keys [OF run] init_state_keys assms(2) by simp
  then obtain b where bank: "map_of (time_on_court st) p = Some b"
    using map_of_eq_None_iff [of "time_on_court st" p] by auto
  from final_bank_intervals [OF run build bank] assms(3)
  have ivs: "ivs = intervals b" and pb: "paired b" and closed: "time_in b = None" by simp_all
  have sorted: "sorted_wrt (\<lambda>a b. clock_time b \<le> clock_time a) ordered"
    by (rule process_pbp_data_sorted [OF assms(1)])
  from pb closed have "\<not> overfull b" by (simp add: paired_def overfull_def)
  with run_events_regular [OF run sorted bank]
  have reg: "regular (clock_time ` set ordered) (late_starts ordered) (period_starts ordered) b"
    by simp
  have outs: "sorted_wrt (\<lambda>x y. y \<le> x) (map snd ivs)"
    unfolding ivs using reg paired_outs [OF pb] by (simp add: regular_def)
  have ends: "\<forall>(i, out) \<in> set ivs. out \<le> i \<or> i \<in> late_starts ordered"
    unfolding ivs using reg by (simp add: regular_def)
  from process_pbp_data_ordered [OF assms(1)] obtain timed where
    timed: "add_game_time_remaining pbp_df = Inr timed" "ordered = sort_values timed" by blast
  have clock: "\<forall>r \<in> set ordered. clock_time r = game_time_remaining r"
    using add_game_time_remaining_clock [OF timed(1)] timed(2) by (simp add: sort_values_def)
  have subs: "\<exists>st1 b1.
              run_events home_roster visitor_roster home_id
                (init_state home_roster visitor_roster) (pre @ [row]) = Inr st1
            \<and> map_of (time_on_court st1) p = Some b1
            \<and> length (time_out_list b1) < length ivs
            \<and> fst (ivs ! length (time_out_list b1)) = game_time_remaining row
            \<and> snd (ivs ! length (time_out_list b1)) \<le> fst (ivs ! length (time_out_list b1))
            \<and> (\<forall>j<length (time_out_list b1).
                  fst (ivs ! length (time_out_list b1)) \<le> snd (ivs ! j)
                  \<and> (snd (ivs ! j) \<le> fst (ivs ! j) \<longrightarrow>
                       fst (ivs ! length (time_out_list b1)) \<le> fst (ivs ! j)))"
    if dec: "ordered = pre @ row # post" and ty: "eventmsgtype row = 8"
      and inc: "player2_id row = Some p"
    for pre row post
  proof -
    have gt: "clock_time row = game_time_remaining row" using clock dec by simp
    from substitution_interval [OF run [unfolded dec] sorted [unfolded dec] ty inc
        bank pb closed]
    obtain st1 b1 where
      r1: "run_events home_roster visitor_roster home_id
             (init_state home_roster visitor_roster) (pre @ [row]) = Inr st1"
      and b1: "map_of (time_on_court st1) p = Some b1"
      and k: "length (time_out_list b1) < length (intervals b)"
      and start: "fst (intervals b ! length (time_out_list b1)) = clock_time row"
      and stop: "snd (intervals b ! length (time_out_list b1)) \<le> clock_time row"
      and earlier: "\<forall>j<length (time_out_list b1). clock_time row \<le> snd (intervals b ! j)"
      by blast
    have "\<forall>j<length (time_out_list b1).
                  fst (ivs ! length (time_out_list b1)) \<le> snd (ivs ! j)
                  \<and> (snd (ivs ! j) \<le> fst (ivs ! j) \<longrightarrow>
                       fst (ivs ! length (time_out_list b1)) \<le> fst (ivs ! j))"
      unfolding ivs using start earlier by auto
    moreover have "snd (ivs ! length (time_out_list b1)) \<le> fst (ivs ! length (time_out_list b1))"
      unfolding ivs using start stop by simp
    moreover have "fst (ivs ! length (time_out_list b1)) = game_time_remaining row"
      unfolding ivs using start gt by simp
    moreover have "length (time_out_list b1) < length ivs" unfolding ivs by (rule k)
    ultimately show ?thesis using r1 b1 by blast
  qed
  from outs ends subs show ?thesis by blast
qed

text \<open>
  The claim as stated fails on \<open>overlap_game\<close>: the intervals of player 2 are
  \<open>(2100, 2000)\<close> and then \<open>(2400, 1900)\<close>, which is neither in decreasing order of
  \<open>time_in\<close> nor free of overlap, and the interval of player 4 is \<open>(2400, 2460)\<close>, with
  \<open>time_in < time_out\<close>.
\<close>

theorem C7_counterexample:
  "(case process_pbp_data overlap_game [1, 2, 3, 4, 5] [] 100 200 of
      Inl e \<Rightarrow> False
    | Inr (sub_df, ordered) \<Rightarrow>
        map (\<lambda>r. (sub_time_in r, sub_time_out r))
          (filter (\<lambda>r. player_id r = 2) (frame_rows sub_df)) = [(2100, 2000), (2400, 1900)]
        \<and> map (\<lambda>r. (sub_time_in r, sub_time_out r))
            (filter (\<lambda>r. player_id r = 4) (frame_rows sub_df)) = [(2400, 2460)])
   \<and> \<not> sorted_wrt (\<lambda>(i, out) (i', out'). i' \<le> i) [(2100 :: rat, 2000 :: rat), (2400, 1900)]
   \<and> \<not> sorted_wrt (\<lambda>(i, out) (i', out'). i' \<le> out) [(2100 :: rat, 2000 :: rat), (2400, 1900)]
   \<and> \<not> (2460 :: rat) \<le> 2400"
proof -
  have "(case process_pbp_data overlap_game [1, 2, 3, 4, 5] [] 100 200 of
      Inl e \<Rightarrow> False
    | Inr (sub_df, ordered) \<Rightarrow>
        map (\<lambda>r. (sub_time_in r, sub_time_out r))
          (filter (\<lambda>r. player_id r = 2) (frame_rows sub_df)) = [(2100, 2000), (2400, 1900)]
        \<and> map (\<lambda>r. (sub_time_in r, sub_time_out r))
            (filter (\<lambda>r. player_id r = 4) (frame_rows sub_df)) = [(2400, 2460)])"
    by code_simp
  then show ?thesis by simp
qed

theorem C7_interval_order_witness:
  "\<exists>sub_df ordered.
      process_pbp_data rotation_game [1, 2, 3, 4, 5, 6] [11, 12, 13, 14, 15] 100 200
        = Inr (sub_df, ordered)
      \<and> (1::int) \<in> set ([1, 2, 3, 4, 5, 6] @ [11, 12, 13, 14, 15])
      \<and> map (\<lambda>r. (sub_time_in r, sub_time_out r))
            (filter (\<lambda>r. player_id r = 1) (frame_rows sub_df)) = [(2400, 2100), (1920, 1800)]
      \<and> ordered =
            [tev 1 1 ''9:00'' 1 (Some 1) (Some 100) (Some 2) (Some 3) 2340,
             tev 2 1 ''8:00'' 1 (Some 4) (Some 100) (Some 5) None 2280,
             tev 3 1 ''7:00'' 1 (Some 11) (Some 200) (Some 12) (Some 13) 2220,
             tev 4 1 ''6:00'' 1 (Some 14) (Some 200) (Some 15) None 2160,
             tev 5 1 ''5:00'' 8 (Some 1) (Some 100) (Some 6) None 2100]
            @ tev 6 1 ''2:00'' 8 (Some 6) (Some 100) (Some 1) None 1920
            # [tev 7 1 ''0:00'' 13 None None None None 1800]
      \<and> eventmsgtype (tev 6 1 ''2:00'' 8 (Some 6) (Some 100) (Some 1) None 1920) = 8
      \<and> player2_id (tev 6 1 ''2:00'' 8 (Some 6) (Some 100) (Some 1) None 1920) = Some 1
      \<and> (\<exists>st1 b1.
            run_events [1, 2, 3, 4, 5, 6] [11, 12, 13, 14, 15] 100
              (init_state [1, 2, 3, 4, 5, 6] [11, 12, 13, 14, 15])
              ([tev 1 1 ''9:00'' 1 (Some 1) (Some 100) (Some 2) (Some 3) 2340,
                tev 2 1 ''8:00'' 1 (Some 4) (Some 100) (Some 5) None 2280,
                tev 3 1 ''7:00'' 1 (Some 11) (Some 200) (Some 12) (Some 13) 2220,
                tev 4 1 ''6:00'' 1 (Some 14) (Some 200) (Some 15) None 2160,
                tev 5 1 ''5:00'' 8 (Some 1) (Some 100) (Some 6) None 2100]
               @ [tev 6 1 ''2:00'' 8 (Some 6) (Some 100) (Some 1) None 1920]) = Inr st1
          \<and> map_of (time_on_court st1) 1 = Some b1
          \<and> length (time_out_list b1) = 1
          \<and> fst ([(2400 :: rat, 2100 :: rat), (1920, 1800)] ! length (time_out_list b1))
              = game_time_remaining (tev 6 1 ''2:00'' 8 (Some 6) (Some 100) (Some 1) None 1920)
          \<and> snd ([(2400 :: rat, 2100 :: rat), (1920, 1800)] ! length (time_out_list b1))
              \<le> fst ([(2400 :: rat, 2100 :: rat), (1920, 1800)] ! length (time_out_list b1))
          \<and> (\<forall>j<length (time_out_list b1).
                fst ([(2400 :: rat, 2100 :: rat), (1920, 1800)] ! length (time_out_list b1))
                  \<le> snd ([(2400 :: rat, 2100 :: rat), (1920, 1800)] ! j)
                \<and> (snd ([(2400 :: rat, 2100 :: rat), (1920, 1800)] ! j)
                      \<le> fst ([(2400 :: rat, 2100 :: rat), (1920, 1800)] ! j) \<longrightarrow>
                    fst ([(2400 :: rat, 2100 :: rat), (1920, 1800)] ! length (time_out_list b1))
                      \<le> fst ([(2400 :: rat, 2100 :: rat), (1920, 1800)] ! j))))"
proof -
  let ?pre = "[tev 1 1 ''9:00'' 1 (Some 1) (Some 100) (Some 2) (Some 3) 2340,
             tev 2 1 ''8:00'' 1 (Some 4) (Some 100) (Some 5) None 2280,
             tev 3 1 ''7:00'' 1 (Some 11) (Some 200) (Some 12) (Some 13) 2220,
             tev 4 1 ''6:00'' 1 (Some 14) (Some 200) (Some 15) None 2160,
             tev 5 1 ''5:00'' 8 (Some 1) (Some 100) (Some 6) None 2100]"
  let ?row = "tev 6 1 ''2:00'' 8 (Some 6) (Some 100) (Some 1) None 1920"
  let ?post = "[tev 7 1 ''0:00'' 13 None None None None 1800]"
  let ?ivs = "[(2400 :: rat, 2100 :: rat), (1920, 1800)]"
  have "(case process_pbp_data rotation_game [1, 2, 3, 4, 5, 6]
                     [11, 12, 13, 14, 15] 100 200 of
                Inl e \<Rightarrow> False
              | Inr (sub_df, ordered) \<Rightarrow>
                  map (\<lambda>r. (sub_time_in r, sub_time_out r))
                    (filter (\<lambda>r. player_id r = 1) (frame_rows sub_df)) = ?ivs
                  \<and> ordered = ?pre @ ?row # ?post)"
    by code_simp
  then obtain sub_df ordered where
    p: "process_pbp_data rotation_game [1, 2, 3, 4, 5, 6] [11, 12, 13, 14, 15] 100 200
          = Inr (sub_df, ordered)"
    and ivs: "map (\<lambda>r. (sub_time_in r, sub_time_out r))
                (filter (\<lambda>r. player_id r = 1) (frame_rows sub_df)) = ?ivs"
    and dec: "ordered = ?pre @ ?row # ?post"
    by (cases "process_pbp_data rotation_game [1, 2, 3, 4, 5, 6]
                 [11, 12, 13, 14, 15] 100 200") auto
  have mem: "(1::int) \<in> set ([1, 2, 3, 4, 5, 6] @ [11, 12, 13, 14, 15])" by simp
  have ty: "eventmsgtype ?row = 8" and inc: "player2_id ?row = Some 1"
    by (simp_all add: tev_def)
  have closed_before: "(case run_events [1, 2, 3, 4, 5, 6] [11, 12, 13, 14, 15] 100
              (init_state [1, 2, 3, 4, 5, 6] [11, 12, 13, 14, 15]) (?pre @ [?row]) of
           Inl e \<Rightarrow> False
         | Inr st \<Rightarrow>
             (case map_of (time_on_court st) 1 of
                None \<Rightarrow> False
              | Some b \<Rightarrow> length (time_out_list b) = 1))"
    by code_simp
  from C7_interval_order [OF p mem ivs [symmetric]] dec ty inc
  obtain st1 b1 where
    r1: "run_events [1, 2, 3, 4, 5, 6] [11, 12, 13, 14, 15] 100
           (init_state [1, 2, 3, 4, 5, 6] [11, 12, 13, 14, 15]) (?pre @ [?row]) = Inr st1"
    and b1: "map_of (time_on_court st1) 1 = Some b1"
    and start: "fst (?ivs ! length (time_out_list b1)) = game_time_remaining ?row"
    and stop: "snd (?ivs ! length (time_out_list b1)) \<le> fst (?ivs ! length (time_out_list b1))"
    and earlier: "\<forall>j<length (time_out_list b1).
       fst (?ivs ! length (time_out_list b1)) \<le> snd (?ivs ! j)
       \<and> (snd (?ivs ! j) \<le> fst (?ivs ! j) \<longrightarrow>
            fst (?ivs ! length (time_out_list b1)) \<le> fst (?ivs ! j))"
    by blast
  from closed_before r1 b1 have k: "length (time_out_list b1) = 1" by simp
  have "\<exists>st1 b1.
            run_events [1, 2, 3, 4, 5, 6] [11, 12, 13, 14, 15] 100
              (init_state [1, 2, 3, 4, 5, 6] [11, 12, 13, 14, 15]) (?pre @ [?row]) = Inr st1
          \<and> map_of (time_on_court st1) 1 = Some b1
          \<and> length (time_out_list b1) = 1
          \<and> fst (?ivs ! length (time_out_list b1)) = game_time_remaining ?row
          \<and> snd (?ivs ! length (time_out_list b1)) \<le> fst (?ivs ! length (time_out_list b1))
          \<and> (\<forall>j<length (time_out_list b1).
                fst (?ivs ! length (time_out_list b1)) \<le> snd (?ivs ! j)
                \<and> (snd (?ivs ! j) \<le> fst (?ivs ! j) \<longrightarrow>
                     fst (?ivs ! length (time_out_list b1)) \<le> fst (?ivs ! j)))"
    by (intro exI [of _ st1] exI [of _ b1] conjI r1 b1 k start stop earlier)
  then show ?thesis
    by (intro exI [of _ sub_df] exI [of _ ordered] conjI p mem ivs dec ty inc)
qed

end
